theory Spec2Isabelle
  imports Main
begin

section \<open>Values, errors and settlements\<close>

text \<open>
  The upload client of \<^verbatim>\<open>src/http-api/index.ts\<close> is event driven: \<^verbatim>\<open>uploadContent\<close> runs
  synchronously, installs callbacks on an XMLHttpRequest, a timer and an abort signal, and
  returns a promise; later the callbacks run, one at a time, on the single control thread.
  The embedding keeps every closure variable of \<^verbatim>\<open>uploadContent\<close> in a record, turns every
  callback into a function on that record, and turns the environment (transport, clock,
  caller) into a list of events.
\<close>

text \<open>JavaScript values as far as the upload needs them: what \<^verbatim>\<open>JSON.parse\<close> yields,
  and a \<^verbatim>\<open>Response\<close> object (with its body) where one is passed on as a value.\<close>

datatype js_value =
    JNull
  | JBool bool
  | JNum int
  | JStr string
  | JArr "js_value list"
  | JObj "(string \<times> js_value) list"
  | JResponse string

text \<open>
  The error objects the code builds or forwards. \<^verbatim>\<open>new Error(m)\<close> has the name
  \<^verbatim>\<open>Error\<close>; \<^verbatim>\<open>new DOMException(m, n)\<close> has the name \<^verbatim>\<open>n\<close>;
  \<^verbatim>\<open>new ConnectionError(m, cause)\<close> (class of \<^verbatim>\<open>./errors\<close>) has the name
  \<^verbatim>\<open>ConnectionError\<close>. \<open>OtherError n m\<close> stands for an error object made by a
  collaborator (the MatrixError or HTTPError of \<^verbatim>\<open>parseErrorResponse\<close>, the SyntaxError of
  \<^verbatim>\<open>JSON.parse\<close>), of which the code reads the name only.
\<close>

datatype js_error =
    Error string
  | DOMException string string
  | ConnectionError string js_error
  | OtherError string string

fun error_name :: "js_error \<Rightarrow> string" where
  "error_name (Error m) = ''Error''"
| "error_name (DOMException m n) = n"
| "error_name (ConnectionError m c) = ''ConnectionError''"
| "error_name (OtherError n m) = n"

datatype settlement = Resolved js_value | Rejected js_error

section \<open>Configuration, options and payload\<close>

text \<open>
  \<open>xhr_impl\<close> is what \<^verbatim>\<open>global.XMLHttpRequest\<close> constructs. \<open>Standard\<close> follows the
  XMLHttpRequest standard: \<^verbatim>\<open>abort()\<close> on a request in flight sets the state to DONE, the
  response to a network error (status 0, empty status text and body) and dispatches
  \<^verbatim>\<open>readystatechange\<close> before it returns. \<open>Silent\<close> is a transport whose
  \<^verbatim>\<open>abort()\<close> returns without calling back (a test double); its terminal state, if
  any, is reported later.
\<close>

datatype xhr_impl = Standard | Silent

record IHttpOpts =
  baseUrl :: string
  useAuthorizationHeader :: "bool option"
  accessToken :: "string option"
  onlyData :: "bool option"

text \<open>
  The collaborators \<^verbatim>\<open>uploadContent\<close> calls and that are not part of the file:
  \<^verbatim>\<open>JSON.parse\<close> and \<^verbatim>\<open>parseErrorResponse\<close> return a value (\<open>Inr\<close>) or throw
  (\<open>Inl\<close>); \<^verbatim>\<open>encodeURIComponent\<close> is a function on strings; \<^verbatim>\<open>MediaPrefix.R0\<close> is a
  constant of \<^verbatim>\<open>./prefix\<close>.
\<close>

record env =
  XMLHttpRequest :: "xhr_impl option"
  opts :: IHttpOpts
  JSON_parse :: "string \<Rightarrow> js_error + js_value"
  parseErrorResponse :: "nat \<Rightarrow> string \<Rightarrow> js_error + js_error"
  encodeURIComponent :: "string \<Rightarrow> string"
  MediaPrefix_R0 :: string

text \<open>The payload: its optional \<^verbatim>\<open>type\<close> and \<^verbatim>\<open>name\<close> properties and its bytes.\<close>

record FileType =
  file_type :: "string option"
  file_name :: "string option"
  file_data :: string

text \<open>
  An \<^verbatim>\<open>AbortController\<close> is an object with an identity: one that the caller has made,
  or the one that \<^verbatim>\<open>uploadContent\<close> makes for an upload (line 73). The same controller can
  be given to several uploads.
\<close>

datatype controller = Own nat | Callers nat

text \<open>
  \<^verbatim>\<open>UploadOpts\<close>, with the options the doc comment of \<^verbatim>\<open>uploadContent\<close> lists.
  \<open>abortController = Some (c, b)\<close> is the controller \<open>c\<close>, supplied by the caller, whose
  signal has \<^verbatim>\<open>aborted = b\<close> at the call.
\<close>

record UploadOpts =
  name :: "string option"
  includeFilename :: "bool option"
  type :: "string option"
  progressHandler :: bool
  abortController :: "(controller \<times> bool) option"
  rawResponse :: "bool option"
  onlyContentUri :: "bool option"

text \<open>Truthiness of an optional string and of an optional boolean.\<close>

definition truthy_str :: "string option \<Rightarrow> bool" where
  "truthy_str s = (case s of None \<Rightarrow> False | Some t \<Rightarrow> t \<noteq> [])"

definition truthy_bool :: "bool option \<Rightarrow> bool" where
  "truthy_bool b = (case b of None \<Rightarrow> False | Some t \<Rightarrow> t)"

section \<open>The request\<close>

record URL =
  pathname :: string
  searchParams :: "(string \<times> string) list"

text \<open>\<^verbatim>\<open>URLSearchParams.set\<close>: replace the value of the first pair with the key and drop
  the other pairs with it, or append.\<close>

fun searchParams_set :: "string \<Rightarrow> string \<Rightarrow> (string \<times> string) list \<Rightarrow> (string \<times> string) list" where
  "searchParams_set k v [] = [(k, v)]"
| "searchParams_set k v ((k', v') # ps) =
     (if k' = k then (k, v) # filter (\<lambda>p. fst p \<noteq> k) ps else (k', v') # searchParams_set k v ps)"

text \<open>
  Modelled from the spec: \<^verbatim>\<open>getUrl\<close> of \<^verbatim>\<open>FetchHttpApi\<close> (one of the "URL/prefix
  construction helpers", not in the file). Called with no query parameters, it yields the
  base URL followed by the prefix and the path, with an empty query.
\<close>

definition getUrl :: "env \<Rightarrow> string \<Rightarrow> string \<Rightarrow> URL" where
  "getUrl e path prefix = \<lparr>pathname = baseUrl (opts e) @ prefix @ path, searchParams = []\<rparr>"

definition includeFilename_of :: "UploadOpts \<Rightarrow> bool" where
  "includeFilename_of o' = (case includeFilename o' of None \<Rightarrow> True | Some b \<Rightarrow> b)"

definition contentType :: "FileType \<Rightarrow> UploadOpts \<Rightarrow> string" where
  "contentType file o' =
     (case type o' of
        Some t \<Rightarrow> t
      | None \<Rightarrow> (case file_type file of Some t \<Rightarrow> t | None \<Rightarrow> ''application/octet-stream''))"

definition fileName :: "FileType \<Rightarrow> UploadOpts \<Rightarrow> string option" where
  "fileName file o' = (case name o' of Some n \<Rightarrow> Some n | None \<Rightarrow> file_name file)"

text \<open>The URL of the streaming request, lines 136 to 144.\<close>

definition upload_url :: "env \<Rightarrow> FileType \<Rightarrow> UploadOpts \<Rightarrow> URL" where
  "upload_url e file o' =
     (let url = getUrl e ''/upload'' (MediaPrefix_R0 e);
          url1 = (if includeFilename_of o' \<and> truthy_str (fileName file o')
                  then url\<lparr>searchParams :=
                         searchParams_set ''filename''
                           (encodeURIComponent e (case fileName file o' of Some n \<Rightarrow> n | None \<Rightarrow> []))
                           (searchParams url)\<rparr>
                  else url)
      in if \<not> truthy_bool (useAuthorizationHeader (opts e)) \<and> truthy_str (accessToken (opts e))
         then url1\<lparr>searchParams :=
                searchParams_set ''access_token''
                  (encodeURIComponent e (case accessToken (opts e) of Some t \<Rightarrow> t | None \<Rightarrow> []))
                  (searchParams url1)\<rparr>
         else url1)"

text \<open>The headers set on the streaming request, lines 147 to 150, in order.\<close>

definition upload_headers :: "env \<Rightarrow> FileType \<Rightarrow> UploadOpts \<Rightarrow> (string \<times> string) list" where
  "upload_headers e file o' =
     (if truthy_bool (useAuthorizationHeader (opts e)) \<and> truthy_str (accessToken (opts e))
      then [(''Authorization'', ''Bearer '' @ (case accessToken (opts e) of Some t \<Rightarrow> t | None \<Rightarrow> []))]
      else [])
     @ [(''Content-Type'', contentType file o')]"

text \<open>The query parameters handed to \<^verbatim>\<open>authedRequest\<close>, lines 157 to 160.\<close>

definition queryParams :: "FileType \<Rightarrow> UploadOpts \<Rightarrow> (string \<times> string) list" where
  "queryParams file o' =
     (if includeFilename_of o' \<and> truthy_str (fileName file o')
      then [(''filename'', (case fileName file o' of Some n \<Rightarrow> n | None \<Rightarrow> []))]
      else [])"

section \<open>The upload and its closure\<close>

text \<open>What the upload does to the outside, in the order it does it. The last argument of
  \<open>AuthedRequest\<close> is the \<^verbatim>\<open>abortSignal\<close> handed over: the controller it belongs to and
  whether it has fired.\<close>

datatype action =
    XhrOpen string URL
  | XhrSetRequestHeader string string
  | XhrSend FileType
  | XhrAbort
  | AuthedRequest string string "(string \<times> string) list" FileType "(string \<times> string) list"
      "controller \<times> bool"
  | UploadsPush
  | ProgressHandler nat nat

datatype readyState = UNSENT | OPENED | HEADERS_RECEIVED | LOADING | DONE

text \<open>
  One upload: the \<^verbatim>\<open>Upload\<close> object (\<open>loaded\<close>, \<open>total'\<close>, the controller, the promise)
  and the variables its callbacks close over. \<open>uid\<close> is the identity of the object;
  \<open>controller\<close> is \<^verbatim>\<open>upload.abortController\<close>, by identity, and \<open>aborted\<close> is
  \<^verbatim>\<open>abortController.signal.aborted\<close>; \<open>xhr\<close> is \<open>None\<close> in the delegated
  strategy; \<open>timeoutTimer\<close> holds the milliseconds left on the armed timer; \<open>deferred\<close> is
  the state of \<^verbatim>\<open>defer.promise\<close> and \<open>promise\<close> that of \<^verbatim>\<open>upload.promise\<close>, the
  completion future handed to the caller.
\<close>

record upload =
  uid :: nat
  loaded :: nat
  total' :: nat
  controller :: controller
  aborted :: bool
  callsProgressHandler :: bool
  xhr :: "xhr_impl option"
  readyState :: readyState
  status :: nat
  statusText :: string
  responseText :: string
  timeoutTimer :: "nat option"
  deferred :: "settlement option"
  promise :: "settlement option"
  trace :: "action list"

text \<open>The registry \<^verbatim>\<open>this.uploads\<close> holds the uploads by identity; a callback of an upload
  sees the registry and its own closure.\<close>

type_synonym ctx = "nat list \<times> upload"

text \<open>
  Modelled from the spec: \<^verbatim>\<open>utils.removeElement\<close> (the registry's "remove(handle)
  (idempotent: removing an absent handle is a no-op)"). It removes the first element
  the predicate accepts.
\<close>

fun removeElement :: "'a list \<Rightarrow> ('a \<Rightarrow> bool) \<Rightarrow> 'a list" where
  "removeElement [] fn = []"
| "removeElement (x # xs) fn = (if fn x then xs else x # removeElement xs fn)"

text \<open>
  Modelled from the spec: \<^verbatim>\<open>utils.defer\<close> ("a deferred/future primitive with
  resolve/reject/finally-on-settle semantics"). As for every promise, the first call of
  \<^verbatim>\<open>resolve\<close> or \<^verbatim>\<open>reject\<close> settles it and later calls do nothing.
\<close>

fun defer_resolve :: "js_value \<Rightarrow> ctx \<Rightarrow> ctx" where
  "defer_resolve v (reg, u) =
     (reg, if deferred u = None then u\<lparr>deferred := Some (Resolved v)\<rparr> else u)"

fun defer_reject :: "js_error \<Rightarrow> ctx \<Rightarrow> ctx" where
  "defer_reject err (reg, u) =
     (reg, if deferred u = None then u\<lparr>deferred := Some (Rejected err)\<rparr> else u)"

fun emit :: "action \<Rightarrow> ctx \<Rightarrow> ctx" where
  "emit a (reg, u) = (reg, u\<lparr>trace := trace u @ [a]\<rparr>)"

text \<open>
  Modelled from the spec: \<^verbatim>\<open>callbacks.setTimeout\<close> and \<^verbatim>\<open>callbacks.clearTimeout\<close> ("a
  scheduling primitive offering cancellable delayed callbacks"). The upload has one timer
  variable, \<^verbatim>\<open>timeoutTimer\<close>, and the callback is always \<^verbatim>\<open>timeoutFn\<close>.
\<close>

fun setTimeout :: "nat \<Rightarrow> ctx \<Rightarrow> ctx" where
  "setTimeout ms (reg, u) = (reg, u\<lparr>timeoutTimer := Some ms\<rparr>)"

fun clearTimeout :: "ctx \<Rightarrow> ctx" where
  "clearTimeout (reg, u) = (reg, u\<lparr>timeoutTimer := None\<rparr>)"

text \<open>The body of the \<^verbatim>\<open>try\<close> of lines 101 to 113: \<open>Inl\<close> is a thrown exception.\<close>

definition try_done :: "env \<Rightarrow> ctx \<Rightarrow> js_error + ctx" where
  "try_done e c =
     (let u = snd c in
      if status u = 0 then Inl (DOMException (statusText u) ''AbortError'')
      else if responseText u = [] then Inl (Error ''No response body.'')
      else if status u \<ge> 400 then
        (case parseErrorResponse e (status u) (responseText u) of
           Inl ex \<Rightarrow> Inl ex
         | Inr err \<Rightarrow> Inr (defer_reject err c))
      else
        (case JSON_parse e (responseText u) of
           Inl ex \<Rightarrow> Inl ex
         | Inr v \<Rightarrow> Inr (defer_resolve v c)))"

text \<open>\<^verbatim>\<open>xhr.onreadystatechange\<close>, lines 97 to 123.\<close>

definition onreadystatechange :: "env \<Rightarrow> ctx \<Rightarrow> ctx" where
  "onreadystatechange e c =
     (case readyState (snd c) of
        DONE \<Rightarrow>
          (let c1 = clearTimeout c in
           case try_done e c1 of
             Inr c2 \<Rightarrow> c2
           | Inl err \<Rightarrow>
               if error_name err = ''AbortError'' then defer_reject err c1
               else defer_reject (ConnectionError ''request failed'' err) c1)
      | _ \<Rightarrow> c)"

definition in_flight :: "upload \<Rightarrow> bool" where
  "in_flight u = (readyState u = OPENED \<or> readyState u = HEADERS_RECEIVED \<or> readyState u = LOADING)"

text \<open>
  \<^verbatim>\<open>xhr.abort()\<close>. For the standard transport, the steps of the XMLHttpRequest standard:
  a request in flight goes to DONE with a network error as response, the
  \<^verbatim>\<open>readystatechange\<close> handler runs, and the state ends as UNSENT; a request that is
  DONE goes to UNSENT with no event.
\<close>

fun xhr_abort :: "env \<Rightarrow> ctx \<Rightarrow> ctx" where
  "xhr_abort e (reg, u) =
     (let c = emit XhrAbort (reg, u) in
      case xhr u of
        Some Standard \<Rightarrow>
          (if in_flight u then
             (case onreadystatechange e
                     (fst c, (snd c)\<lparr>readyState := DONE, status := 0, statusText := [], responseText := []\<rparr>) of
                (reg', u') \<Rightarrow> (reg', u'\<lparr>readyState := UNSENT\<rparr>))
           else if readyState u = DONE then (fst c, (snd c)\<lparr>readyState := UNSENT\<rparr>)
           else c)
      | _ \<Rightarrow> c)"

text \<open>\<^verbatim>\<open>timeoutFn\<close>, lines 89 to 92.\<close>

definition timeoutFn :: "env \<Rightarrow> ctx \<Rightarrow> ctx" where
  "timeoutFn e c = defer_reject (Error ''Timeout'') (xhr_abort e c)"

text \<open>\<^verbatim>\<open>xhr.upload.onprogress\<close>, lines 125 to 134.\<close>

definition onprogress :: "nat \<Rightarrow> nat \<Rightarrow> ctx \<Rightarrow> ctx" where
  "onprogress ev_loaded ev_total c =
     (case clearTimeout c of
        (reg, u) \<Rightarrow>
          (let c1 = setTimeout 30000 (reg, u\<lparr>loaded := ev_loaded, total' := ev_total\<rparr>)
           in if callsProgressHandler u then emit (ProgressHandler ev_loaded ev_total) c1 else c1))"

text \<open>The two listeners of the abort signal: lines 153 to 155 (streaming strategy only)
  and lines 179 to 182.\<close>

definition abort_listener_xhr :: "env \<Rightarrow> ctx \<Rightarrow> ctx" where
  "abort_listener_xhr e c = xhr_abort e c"

fun abort_listener_upload :: "ctx \<Rightarrow> ctx" where
  "abort_listener_upload (reg, u) =
     defer_reject (DOMException ''Aborted'' ''AbortError'')
       (removeElement reg (\<lambda>elem. elem = uid u), u)"

text \<open>
  What \<^verbatim>\<open>abort()\<close> on the controller of an upload does to that upload: a signal that has
  fired stays as it is; otherwise it is marked aborted and the listeners the upload has
  added run in the order they were added. (What it does to the other uploads of the same
  controller is \<open>abort_controller\<close> below.)
\<close>

definition abort :: "env \<Rightarrow> ctx \<Rightarrow> ctx" where
  "abort e c =
     (case c of
        (reg, u) \<Rightarrow>
          if aborted u then c
          else
            (let c1 = (reg, u\<lparr>aborted := True\<rparr>);
                 c2 = (if xhr u \<noteq> None then abort_listener_xhr e c1 else c1)
             in abort_listener_upload c2))"

text \<open>
  The callback of \<^verbatim>\<open>defer.promise.finally\<close>, lines 176 to 178: a microtask that runs once
  \<^verbatim>\<open>defer.promise\<close> is settled; \<^verbatim>\<open>upload.promise\<close> then settles the same way.
\<close>

fun microtasks :: "ctx \<Rightarrow> ctx" where
  "microtasks (reg, u) =
     (case deferred u of
        None \<Rightarrow> (reg, u)
      | Some r \<Rightarrow>
          if promise u = None
          then (removeElement reg (\<lambda>elem. elem = uid u), u\<lparr>promise := Some r\<rparr>)
          else (reg, u))"

text \<open>
  What \<^verbatim>\<open>authedRequest\<close> resolves to: with \<^verbatim>\<open>onlyData\<close> the parsed body, otherwise a
  \<^verbatim>\<open>Response\<close> object whose \<^verbatim>\<open>json()\<close> parses its body. Line 171 passes the first on as
  it is and calls \<^verbatim>\<open>json()\<close> on the second; a value without that method makes the call
  throw a TypeError, which rejects the promise of the \<^verbatim>\<open>then\<close>.
\<close>

datatype response = ParsedBody js_value | ResponseObject string

text \<open>
  Modelled from the spec: \<^verbatim>\<open>authedRequest\<close> of \<^verbatim>\<open>FetchHttpApi\<close> (the delegated transport,
  not in the file) is given "the shared AbortController's cancellation signal". Once the
  signal has fired, at the call or later, its promise is rejected with an error named
  AbortError, whatever the exchange with the server would have given.
\<close>

definition authedRequest_settles :: "bool \<Rightarrow> js_error + response \<Rightarrow> js_error + response" where
  "authedRequest_settles signal_fired r =
     (if signal_fired then Inl (DOMException ''signal is aborted without reason'' ''AbortError'')
      else r)"

text \<open>The continuation of lines 170 to 172 on the settlement of \<^verbatim>\<open>authedRequest\<close>.\<close>

definition delegated_then :: "env \<Rightarrow> js_error + response \<Rightarrow> ctx \<Rightarrow> ctx" where
  "delegated_then e r c =
     (case r of
        Inl err \<Rightarrow> defer_reject err c
      | Inr resp \<Rightarrow>
          if truthy_bool (onlyData (opts e)) then
            (case resp of
               ParsedBody v \<Rightarrow> defer_resolve v c
             | ResponseObject body \<Rightarrow> defer_resolve (JResponse body) c)
          else
            (case resp of
               ResponseObject body \<Rightarrow>
                 (case JSON_parse e body of
                    Inl ex \<Rightarrow> defer_reject ex c
                  | Inr v \<Rightarrow> defer_resolve v c)
             | ParsedBody v \<Rightarrow>
                 defer_reject (OtherError ''TypeError'' ''response.json is not a function'') c))"

section \<open>uploadContent\<close>

text \<open>Line 73: the controller of the options, or a new one, whose signal has not fired.\<close>

definition abortController_of :: "nat \<Rightarrow> UploadOpts \<Rightarrow> controller \<times> bool" where
  "abortController_of i o' = (case abortController o' of None \<Rightarrow> (Own i, False) | Some cb \<Rightarrow> cb)"

definition new_upload :: "nat \<Rightarrow> UploadOpts \<Rightarrow> upload" where
  "new_upload i o' =
     \<lparr>uid = i, loaded = 0, total' = 0,
      controller = fst (abortController_of i o'),
      aborted = snd (abortController_of i o'),
      callsProgressHandler = progressHandler o',
      xhr = None, readyState = UNSENT, status = 0, statusText = [], responseText = [],
      timeoutTimer = None, deferred = None, promise = None, trace = []\<rparr>"

text \<open>
  \<^verbatim>\<open>uploadContent\<close>, lines 71 to 185, called with the registry \<open>reg\<close>; \<open>i\<close> is the
  identity of the \<^verbatim>\<open>Upload\<close> object it creates. The result is the registry and the
  closure as they are when the call returns; the promise it returns is that of the upload.
\<close>

definition uploadContent :: "env \<Rightarrow> FileType \<Rightarrow> UploadOpts \<Rightarrow> nat \<Rightarrow> nat list \<Rightarrow> ctx" where
  "uploadContent e file o' i reg =
     (let u = new_upload i o' in
      case XMLHttpRequest e of
        Some impl \<Rightarrow>
          (let c1 = setTimeout 30000 (reg, u\<lparr>xhr := Some impl\<rparr>);
               c2 = emit (XhrOpen ''POST'' (upload_url e file o')) c1;
               c3 = (fst c2, (snd c2)\<lparr>readyState := OPENED\<rparr>);
               c4 = fold (\<lambda>h. emit (XhrSetRequestHeader (fst h) (snd h))) (upload_headers e file o') c3;
               c5 = emit (XhrSend file) c4;
               c6 = emit UploadsPush c5
           in (fst c6 @ [i], snd c6))
      | None \<Rightarrow>
          (let c1 = emit (AuthedRequest ''POST'' ''/upload'' (queryParams file o') file
                            [(''Content-Type'', contentType file o')] (abortController_of i o'))
                      (reg, u);
               c2 = emit UploadsPush c1
           in (fst c2 @ [i], snd c2)))"

section \<open>Events\<close>

text \<open>
  What can happen to an upload after \<^verbatim>\<open>uploadContent\<close> has returned: time passes; the
  transport changes the state of the request or reports upload progress; somebody calls
  \<^verbatim>\<open>abort()\<close> on the upload's controller; the delegated request settles (\<open>Delegated r\<close>,
  where \<open>r\<close> is what the exchange with the server has given).
\<close>

datatype event =
    Elapse nat
  | ReadyStateChange readyState nat string string
  | UploadProgress nat nat
  | Abort
  | Delegated "js_error + response"

text \<open>The callback an event runs. The transport dispatches its events while the request
  is in flight, and the timer fires when its time is up.\<close>

fun handle :: "env \<Rightarrow> event \<Rightarrow> ctx \<Rightarrow> ctx" where
  "handle e (Elapse ms) (reg, u) =
     (case timeoutTimer u of
        None \<Rightarrow> (reg, u)
      | Some left \<Rightarrow>
          if left \<le> ms then timeoutFn e (reg, u\<lparr>timeoutTimer := None\<rparr>)
          else (reg, u\<lparr>timeoutTimer := Some (left - ms)\<rparr>))"
| "handle e (ReadyStateChange rs st txt body) (reg, u) =
     (if xhr u \<noteq> None \<and> in_flight u
      then onreadystatechange e
             (reg, u\<lparr>readyState := rs, status := st, statusText := txt, responseText := body\<rparr>)
      else (reg, u))"
| "handle e (UploadProgress l t) (reg, u) =
     (if xhr u \<noteq> None \<and> in_flight u then onprogress l t (reg, u) else (reg, u))"
| "handle e Abort (reg, u) = abort e (reg, u)"
| "handle e (Delegated r) (reg, u) =
     (if xhr u = None then delegated_then e (authedRequest_settles (aborted u) r) (reg, u)
      else (reg, u))"

text \<open>One turn of the event loop: the callback, then the pending microtasks.\<close>

definition step :: "env \<Rightarrow> event \<Rightarrow> ctx \<Rightarrow> ctx" where
  "step e ev c = microtasks (handle e ev c)"

fun run :: "env \<Rightarrow> event list \<Rightarrow> ctx \<Rightarrow> ctx" where
  "run e [] c = c"
| "run e (ev # evs) c = run e evs (step e ev c)"

section \<open>The API object\<close>

text \<open>
  The \<^verbatim>\<open>MatrixHttpApi\<close> object and the objects around it: the registry \<^verbatim>\<open>this.uploads\<close>;
  the uploads created so far, by identity (\<open>allocated\<close> counts them, so the next one is a
  new one); and the controllers whose signal has fired. A promise is identified with the
  upload it belongs to.
\<close>

record api =
  uploads :: "nat list"
  objects :: "nat \<Rightarrow> upload option"
  allocated :: nat
  fired :: "controller list"

definition new_api :: api where
  "new_api = \<lparr>uploads = [], objects = (\<lambda>i. None), allocated = 0, fired = []\<rparr>"

text \<open>A controller exists if the caller has made it or it is that of an upload created.\<close>

fun exists_controller :: "api \<Rightarrow> controller \<Rightarrow> bool" where
  "exists_controller a (Callers k) = True"
| "exists_controller a (Own j) = (j < allocated a)"

text \<open>
  The options as the call sees them: the state of the signal of a controller is the one
  the controller has now; a reference to a controller that does not exist is no input,
  and is taken as none.
\<close>

definition resolve_opts :: "api \<Rightarrow> UploadOpts \<Rightarrow> UploadOpts" where
  "resolve_opts a o' =
     o'\<lparr>abortController :=
          (case abortController o' of
             None \<Rightarrow> None
           | Some cb \<Rightarrow>
               if exists_controller a (fst cb) then Some (fst cb, fst cb \<in> set (fired a))
               else None)\<rparr>"

text \<open>\<^verbatim>\<open>uploadContent\<close> as a method: the new state and the promise returned.\<close>

definition api_uploadContent :: "env \<Rightarrow> FileType \<Rightarrow> UploadOpts \<Rightarrow> api \<Rightarrow> api \<times> nat" where
  "api_uploadContent e file o' a =
     (let i = allocated a in
      case uploadContent e file (resolve_opts a o') i (uploads a) of
        (reg, u) \<Rightarrow> (a\<lparr>uploads := reg, objects := (objects a)(i \<mapsto> u), allocated := Suc i\<rparr>, i))"

text \<open>A callback of upload \<open>i\<close>, or its microtasks, run on the registry and the upload.\<close>

definition with_upload :: "nat \<Rightarrow> (ctx \<Rightarrow> ctx) \<Rightarrow> api \<Rightarrow> api" where
  "with_upload i f a =
     (case objects a i of
        None \<Rightarrow> a
      | Some u \<Rightarrow>
          (case f (uploads a, u) of
             (reg, u') \<Rightarrow> a\<lparr>uploads := reg, objects := (objects a)(i \<mapsto> u')\<rparr>))"

text \<open>The uploads that have added their listeners to the signal of a controller, in the
  order in which they have.\<close>

definition attached :: "api \<Rightarrow> controller \<Rightarrow> nat list" where
  "attached a c =
     filter (\<lambda>i. case objects a i of None \<Rightarrow> False | Some u \<Rightarrow> controller u = c)
       [0..<allocated a]"

text \<open>
  \<^verbatim>\<open>abort()\<close> on a controller: a signal that has fired stays as it is; otherwise the
  listeners of every upload of the controller run, in the order they were added, and the
  signal has fired.
\<close>

definition abort_controller :: "env \<Rightarrow> controller \<Rightarrow> api \<Rightarrow> api" where
  "abort_controller e c a =
     (if c \<in> set (fired a) \<or> \<not> exists_controller a c then a
      else (fold (\<lambda>i. with_upload i (abort e)) (attached a c) a)\<lparr>fired := c # fired a\<rparr>)"

text \<open>\<^verbatim>\<open>cancelUpload\<close>, lines 187 to 194: \<^verbatim>\<open>find\<close> the upload with the promise, call
  \<^verbatim>\<open>abort()\<close> on its controller, and say whether one was found.\<close>

definition cancelUpload :: "env \<Rightarrow> nat \<Rightarrow> api \<Rightarrow> api \<times> bool" where
  "cancelUpload e p a =
     (case find (\<lambda>i. i = p) (uploads a) of
        None \<Rightarrow> (a, False)
      | Some i \<Rightarrow>
          (case objects a i of
             None \<Rightarrow> (a, True)
           | Some u \<Rightarrow> (abort_controller e (controller u) a, True)))"

definition getCurrentUploads :: "api \<Rightarrow> nat list" where
  "getCurrentUploads a = uploads a"

text \<open>The microtasks of upload \<open>i\<close>, and those of all uploads, run when a task ends.\<close>

definition api_microtasks :: "nat \<Rightarrow> api \<Rightarrow> api" where
  "api_microtasks i a = with_upload i microtasks a"

definition end_of_task :: "api \<Rightarrow> api" where
  "end_of_task a = fold api_microtasks [0..<allocated a] a"

text \<open>An event of upload \<open>i\<close>. The firing of the signal of its controller is an event of
  every upload of that controller.\<close>

definition deliver :: "env \<Rightarrow> nat \<Rightarrow> event \<Rightarrow> api \<Rightarrow> api" where
  "deliver e i ev a =
     (case objects a i of
        None \<Rightarrow> a
      | Some u \<Rightarrow>
          if ev = Abort then end_of_task (abort_controller e (controller u) a)
          else with_upload i (step e ev) a)"

text \<open>A history of the object: calls of its two methods and of \<^verbatim>\<open>abort()\<close> on a
  controller, each in a task of the caller's, and events of its uploads.\<close>

datatype api_call =
    CallUploadContent FileType UploadOpts
  | CallCancelUpload nat
  | CallAbort controller
  | Event nat event

fun api_step :: "env \<Rightarrow> api_call \<Rightarrow> api \<Rightarrow> api" where
  "api_step e (CallUploadContent file o') a = fst (api_uploadContent e file o' a)"
| "api_step e (CallCancelUpload p) a = end_of_task (fst (cancelUpload e p a))"
| "api_step e (CallAbort c) a = end_of_task (abort_controller e c a)"
| "api_step e (Event i ev) a = deliver e i ev a"

fun api_run :: "env \<Rightarrow> api_call list \<Rightarrow> api \<Rightarrow> api" where
  "api_run e [] a = a"
| "api_run e (call # calls) a = api_run e calls (api_step e call a)"

section \<open>Notions the properties are stated with\<close>

text \<open>An event that makes a callback settle the completion future, if it is pending:
  the timer runs out, the transport reports its terminal state, the abort signal fires,
  the delegated request settles.\<close>

fun trigger :: "event \<Rightarrow> upload \<Rightarrow> bool" where
  "trigger (Elapse ms) u = (case timeoutTimer u of None \<Rightarrow> False | Some left \<Rightarrow> left \<le> ms)"
| "trigger (ReadyStateChange rs st txt body) u = (xhr u \<noteq> None \<and> in_flight u \<and> rs = DONE)"
| "trigger (UploadProgress l t) u = False"
| "trigger Abort u = (\<not> aborted u)"
| "trigger (Delegated r) u = (xhr u = None)"

text \<open>A run none of whose events is a trigger where it arrives.\<close>

fun untriggered :: "env \<Rightarrow> event list \<Rightarrow> ctx \<Rightarrow> bool" where
  "untriggered e [] c = True"
| "untriggered e (ev # evs) c = (\<not> trigger ev (snd c) \<and> untriggered e evs (step e ev c))"




text \<open>\<open>occurs_before a b xs\<close>: the first \<open>a\<close> of \<open>xs\<close> comes before every \<open>b\<close>, and a \<open>b\<close>
  follows it.\<close>

fun occurs_before :: "'a \<Rightarrow> 'a \<Rightarrow> 'a list \<Rightarrow> bool" where
  "occurs_before a b [] = False"
| "occurs_before a b (x # xs) =
     (if x = a then b \<in> set xs else if x = b then False else occurs_before a b xs)"

text \<open>Progress ticks, each after a gap of silence: (gap in milliseconds, loaded, total).\<close>

fun ticks :: "(nat \<times> nat \<times> nat) list \<Rightarrow> event list" where
  "ticks [] = []"
| "ticks ((gap, l, t) # ts) = Elapse gap # UploadProgress l t # ticks ts"

text \<open>Upload \<open>p\<close> is in flight (its future is pending); its abort signal has not fired.\<close>

definition pending :: "api \<Rightarrow> nat \<Rightarrow> bool" where
  "pending a p = (case objects a p of None \<Rightarrow> False | Some u \<Rightarrow> deferred u = None)"

definition signal_aborted :: "api \<Rightarrow> nat \<Rightarrow> bool" where
  "signal_aborted a p = (case objects a p of None \<Rightarrow> False | Some u \<Rightarrow> aborted u)"

definition settled_as :: "api \<Rightarrow> nat \<Rightarrow> settlement option" where
  "settled_as a p = (case objects a p of None \<Rightarrow> None | Some u \<Rightarrow> promise u)"

text \<open>\<^verbatim>\<open>uploadContent\<close> called after a history of the object: the state and the promise; what
  an upload has done to the outside; whether an event is a trigger for an upload.\<close>

definition started :: "env \<Rightarrow> api_call list \<Rightarrow> FileType \<Rightarrow> UploadOpts \<Rightarrow> api \<times> nat" where
  "started e calls payload o' = api_uploadContent e payload o' (api_run e calls new_api)"

definition trace_of :: "api \<Rightarrow> nat \<Rightarrow> action list" where
  "trace_of a p = (case objects a p of None \<Rightarrow> [] | Some u \<Rightarrow> trace u)"

definition api_trigger :: "api \<Rightarrow> nat \<Rightarrow> event \<Rightarrow> bool" where
  "api_trigger a p ev = (case objects a p of None \<Rightarrow> False | Some u \<Rightarrow> trigger ev u)"

text \<open>
  The invariant of the API object: the registry holds, in the order of their creation and
  each once, exactly the uploads whose \<^verbatim>\<open>defer\<close> is pending; the uploads created are those
  below \<open>allocated\<close>; the promise of an upload, once settled, is settled as its \<^verbatim>\<open>defer\<close>
  is; an upload whose controller has fired sees its signal as fired; and only controllers
  that exist are used.
\<close>

definition api_inv :: "api \<Rightarrow> bool" where
  "api_inv a =
     (sorted (uploads a) \<and> distinct (uploads a) \<and>
      (\<forall>i. (i \<in> set (uploads a)) = pending a i) \<and>
      (\<forall>i. (i < allocated a) = (objects a i \<noteq> None)) \<and>
      (\<forall>i u. objects a i = Some u \<longrightarrow>
         uid u = i \<and> (promise u = None \<or> promise u = deferred u)
         \<and> (controller u \<in> set (fired a) \<longrightarrow> aborted u)
         \<and> exists_controller a (controller u)) \<and>
      (\<forall>c \<in> set (fired a). exists_controller a c))"

text \<open>The signal an upload sees as fired is that of a controller that has fired.\<close>

definition signals_inv :: "api \<Rightarrow> bool" where
  "signals_inv a = (\<forall>i u. objects a i = Some u \<longrightarrow> aborted u \<longrightarrow> controller u \<in> set (fired a))"

text \<open>At the end of a task no microtask is left: every promise is as its \<^verbatim>\<open>defer\<close>.\<close>

definition drained :: "api \<Rightarrow> bool" where
  "drained a = (\<forall>i u. objects a i = Some u \<longrightarrow> promise u = deferred u)"

text \<open>How the uploads of a state are found in a later one: each is still there, with its
  controller, its signal still fired and its \<^verbatim>\<open>defer\<close> still settled if they were, and with
  as many pushes onto the registry as before.\<close>

definition evolves :: "api \<Rightarrow> api \<Rightarrow> bool" where
  "evolves a a' =
     (allocated a \<le> allocated a' \<and>
      (\<forall>i u. objects a i = Some u \<longrightarrow>
         (\<exists>u'. objects a' i = Some u' \<and> controller u' = controller u
            \<and> (aborted u \<longrightarrow> aborted u')
            \<and> (deferred u \<noteq> None \<longrightarrow> deferred u' = deferred u)
            \<and> count_list (trace u') UploadsPush = count_list (trace u) UploadsPush)))"

text \<open>What a callback of the upload \<open>u\<close>, or its microtasks, have made of the registry
  \<open>reg\<close> and of the upload: the upload is in the registry as before while its \<^verbatim>\<open>defer\<close>
  is pending and is removed once it is settled, and a settled \<^verbatim>\<open>defer\<close> stays as it is.\<close>

definition tidy :: "nat list \<Rightarrow> upload \<Rightarrow> ctx \<Rightarrow> bool" where
  "tidy reg u c =
     (uid (snd c) = uid u \<and> controller (snd c) = controller u \<and>
      (aborted u \<longrightarrow> aborted (snd c)) \<and>
      (deferred u \<noteq> None \<longrightarrow> deferred (snd c) = deferred u) \<and>
      (promise (snd c) = None \<or> promise (snd c) = deferred (snd c)) \<and>
      count_list (trace (snd c)) UploadsPush = count_list (trace u) UploadsPush \<and>
      fst c = (if deferred (snd c) = None then reg else remove1 (uid u) reg))"

text \<open>The invariant of one upload \<open>i\<close> started with the registry \<open>reg\<close>: the two promises
  agree, and the upload is the last entry of the registry exactly while they are pending.\<close>

definition upload_inv :: "nat list \<Rightarrow> nat \<Rightarrow> ctx \<Rightarrow> bool" where
  "upload_inv reg i c =
     (uid (snd c) = i \<and> promise (snd c) = deferred (snd c) \<and>
      fst c = (if deferred (snd c) = None then reg @ [i] else reg))"

text \<open>An upload under the watchdog: the request is in flight, the future is pending, the
  timer is armed with the full 30 seconds and \<^verbatim>\<open>xhr.abort\<close> has not been called.\<close>

definition alive :: "ctx \<Rightarrow> bool" where
  "alive c = (xhr (snd c) \<noteq> None \<and> in_flight (snd c) \<and> deferred (snd c) = None
     \<and> promise (snd c) = None \<and> timeoutTimer (snd c) = Some 30000
     \<and> XhrAbort \<notin> set (trace (snd c)))"

section \<open>Sample inputs\<close>

text \<open>A homeserver configuration, an environment that parses the empty JSON object only,
  a payload with a name and no type, and the empty options.\<close>

definition sample_opts :: "bool option \<Rightarrow> IHttpOpts" where
  "sample_opts hdr =
     \<lparr>baseUrl = ''https://hs.example'', useAuthorizationHeader = hdr,
      accessToken = Some ''secret'', onlyData = None\<rparr>"

definition sample_env :: "xhr_impl option \<Rightarrow> env" where
  "sample_env x =
     \<lparr>XMLHttpRequest = x, opts = sample_opts (Some True),
      JSON_parse = (\<lambda>s. if s = ''{}'' then Inr (JObj []) else Inl (OtherError ''SyntaxError'' s)),
      parseErrorResponse = (\<lambda>st body. Inr (OtherError ''M_UNKNOWN'' body)),
      encodeURIComponent = (\<lambda>s. s),
      MediaPrefix_R0 = ''/_matrix/media/r0''\<rparr>"

definition sample_file :: FileType where
  "sample_file = \<lparr>file_type = None, file_name = Some ''a.bin'', file_data = ''abc''\<rparr>"

definition no_opts :: UploadOpts where
  "no_opts =
     \<lparr>name = None, includeFilename = None, type = None, progressHandler = False,
      abortController = None, rawResponse = None, onlyContentUri = None\<rparr>"

text \<open>Options with a controller of the caller's, to be shared by several uploads, and
  the terminal report of a successful exchange.\<close>

definition shared_opts :: UploadOpts where
  "shared_opts = no_opts\<lparr>abortController := Some (Callers 0, False)\<rparr>"

definition done_ok :: event where
  "done_ok = ReadyStateChange DONE 200 ''OK'' ''{}''"

section \<open>The request that is sent\<close>

lemma keys_searchParams_set: "fst ` set (searchParams_set k v ps) = insert k (fst ` set ps)"
proof (induction ps)
  case Nil
  then show ?case by simp
next
  case (Cons p ps)
  have "fst ` {x \<in> set ps. fst x \<noteq> k} = fst ` set ps - {k}"
    by force
  with Cons show ?case
    by (cases p) auto
qed

lemma map_of_filter_other:
  "k' \<noteq> k \<Longrightarrow> map_of (filter (\<lambda>p. fst p \<noteq> k) ps) k' = map_of ps k'"
  by (induction ps) auto

lemma map_of_searchParams_set:
  "map_of (searchParams_set k v ps) k' = (if k' = k then Some v else map_of ps k')"
  by (induction ps) (auto simp: map_of_filter_other)

lemma fold_emit:
  "fold (\<lambda>h. emit (f h)) hs (reg, u) = (reg, u\<lparr>trace := trace u @ map f hs\<rparr>)"
  by (induction hs arbitrary: u) auto

lemma trace_uploadContent_xhr:
  "XMLHttpRequest e = Some impl \<Longrightarrow>
   trace (snd (uploadContent e file o' i reg)) =
     XhrOpen ''POST'' (upload_url e file o')
       # map (\<lambda>h. XhrSetRequestHeader (fst h) (snd h)) (upload_headers e file o')
       @ [XhrSend file, UploadsPush]"
  by (simp add: uploadContent_def new_upload_def Let_def fold_emit)

lemma trace_uploadContent_delegated:
  "XMLHttpRequest e = None \<Longrightarrow>
   trace (snd (uploadContent e file o' i reg)) =
     [AuthedRequest ''POST'' ''/upload'' (queryParams file o') file
        [(''Content-Type'', contentType file o')] (abortController_of i o'),
      UploadsPush]"
  by (simp add: uploadContent_def new_upload_def Let_def)

lemma contentType_is_sent:
  "XhrSetRequestHeader ''Content-Type'' (contentType payload o')
     \<in> set (trace (snd (uploadContent (e\<lparr>XMLHttpRequest := Some impl\<rparr>) payload o' i reg)))"
  "AuthedRequest ''POST'' ''/upload'' (queryParams payload o') payload
       [(''Content-Type'', contentType payload o')] (abortController_of i o')
     \<in> set (trace (snd (uploadContent (e\<lparr>XMLHttpRequest := None\<rparr>) payload o' i reg)))"
proof -
  have "(''Content-Type'', contentType payload o')
          \<in> set (upload_headers (e\<lparr>XMLHttpRequest := Some impl\<rparr>) payload o')"
    by (simp add: upload_headers_def)
  then show "XhrSetRequestHeader ''Content-Type'' (contentType payload o')
       \<in> set (trace (snd (uploadContent (e\<lparr>XMLHttpRequest := Some impl\<rparr>) payload o' i reg)))"
    by (force simp: trace_uploadContent_xhr)
  show "AuthedRequest ''POST'' ''/upload'' (queryParams payload o') payload
       [(''Content-Type'', contentType payload o')] (abortController_of i o')
     \<in> set (trace (snd (uploadContent (e\<lparr>XMLHttpRequest := None\<rparr>) payload o' i reg)))"
    by (simp add: trace_uploadContent_delegated)
qed

text \<open>
  C9. The content type is that of the options when it is defined, else that of the
  payload when it is defined, else \<^verbatim>\<open>application/octet-stream\<close>. But the default is
  substituted for an undefined type only: a payload without a MIME type (a File or Blob,
  whose \<^verbatim>\<open>type\<close> is then the empty string), uploaded with no type in the options, gets
  the empty string as its content type, and that is the Content-Type sent in both
  strategies, where the comment of line 75 promises the default.
\<close>

theorem empty_type_is_not_defaulted:
  "contentType (file\<lparr>file_type := Some []\<rparr>) (o'\<lparr>type := None\<rparr>) = []
   \<and> XhrSetRequestHeader ''Content-Type'' []
       \<in> set (trace (snd (uploadContent (e\<lparr>XMLHttpRequest := Some impl\<rparr>)
                 (file\<lparr>file_type := Some []\<rparr>) (o'\<lparr>type := None\<rparr>) i reg)))
   \<and> AuthedRequest ''POST'' ''/upload''
         (queryParams (file\<lparr>file_type := Some []\<rparr>) (o'\<lparr>type := None\<rparr>))
         (file\<lparr>file_type := Some []\<rparr>) [(''Content-Type'', [])]
         (abortController_of i (o'\<lparr>type := None\<rparr>))
       \<in> set (trace (snd (uploadContent (e\<lparr>XMLHttpRequest := None\<rparr>)
                 (file\<lparr>file_type := Some []\<rparr>) (o'\<lparr>type := None\<rparr>) i reg)))
   \<and> [] \<noteq> ''application/octet-stream''"
proof -
  have c: "contentType (file\<lparr>file_type := Some []\<rparr>) (o'\<lparr>type := None\<rparr>) = []"
    by (simp add: contentType_def)
  from contentType_is_sent [where payload = "file\<lparr>file_type := Some []\<rparr>"
      and o' = "o'\<lparr>type := None\<rparr>"]
  show ?thesis
    unfolding c by simp
qed

text \<open>
  C8. With an access token configured (defined and not empty), the streaming request
  carries it in exactly one form, chosen by \<^verbatim>\<open>useAuthorizationHeader\<close>: as the header
  \<^verbatim>\<open>Authorization: Bearer <token>\<close> with no \<^verbatim>\<open>access_token\<close> query parameter, or as the
  query parameter \<^verbatim>\<open>access_token\<close> with no Authorization header. The request opened and
  the headers set are those of \<open>upload_url\<close> and \<open>upload_headers\<close>.
\<close>

theorem credential_in_one_form:
  assumes "XMLHttpRequest e = Some impl" and "accessToken (opts e) = Some tok" and "tok \<noteq> []"
  shows "trace (snd (uploadContent e file o' i reg)) =
           XhrOpen ''POST'' (upload_url e file o')
             # map (\<lambda>h. XhrSetRequestHeader (fst h) (snd h)) (upload_headers e file o')
             @ [XhrSend file, UploadsPush]
         \<and> (if truthy_bool (useAuthorizationHeader (opts e))
            then (''Authorization'', ''Bearer '' @ tok) \<in> set (upload_headers e file o')
                 \<and> ''access_token'' \<notin> fst ` set (searchParams (upload_url e file o'))
            else map_of (searchParams (upload_url e file o')) ''access_token''
                   = Some (encodeURIComponent e tok)
                 \<and> ''Authorization'' \<notin> fst ` set (upload_headers e file o'))"
proof -
  have "if truthy_bool (useAuthorizationHeader (opts e))
        then (''Authorization'', ''Bearer '' @ tok) \<in> set (upload_headers e file o')
             \<and> ''access_token'' \<notin> fst ` set (searchParams (upload_url e file o'))
        else map_of (searchParams (upload_url e file o')) ''access_token''
               = Some (encodeURIComponent e tok)
             \<and> ''Authorization'' \<notin> fst ` set (upload_headers e file o')"
    using assms(2,3)
    by (auto simp: upload_headers_def upload_url_def getUrl_def truthy_str_def Let_def
        keys_searchParams_set map_of_searchParams_set)
  with trace_uploadContent_xhr [OF assms(1)] show ?thesis
    by simp
qed

theorem credential_in_one_form_witness:
  "(''Authorization'', ''Bearer secret'')
     \<in> set (upload_headers (sample_env (Some Standard)) sample_file no_opts)
   \<and> ''access_token''
     \<notin> fst ` set (searchParams (upload_url (sample_env (Some Standard)) sample_file no_opts))
   \<and> map_of (searchParams (upload_url ((sample_env (Some Standard))\<lparr>opts := sample_opts None\<rparr>)
                sample_file no_opts)) ''access_token'' = Some ''secret''
   \<and> ''Authorization''
     \<notin> fst ` set (upload_headers ((sample_env (Some Standard))\<lparr>opts := sample_opts None\<rparr>)
                     sample_file no_opts)"
  using credential_in_one_form [of "sample_env (Some Standard)" Standard "''secret''"
          sample_file no_opts 0 "[]"]
        credential_in_one_form [of "(sample_env (Some Standard))\<lparr>opts := sample_opts None\<rparr>"
          Standard "''secret''" sample_file no_opts 0 "[]"]
  by (simp add: sample_env_def sample_opts_def truthy_bool_def)

section \<open>What one callback does\<close>

lemmas callbacks = try_done_def onreadystatechange_def timeoutFn_def onprogress_def
  abort_listener_xhr_def abort_def delegated_then_def authedRequest_settles_def in_flight_def

lemmas case_splits = option.splits sum.splits readyState.splits xhr_impl.splits
  response.splits prod.splits

lemma removeElement_eq: "removeElement xs (\<lambda>x. x = i) = remove1 i xs"
  by (induction xs) auto

lemma promise_handle: "promise (snd (handle e ev c)) = promise (snd c)"
  by (cases c; cases ev) (auto simp: callbacks Let_def split: case_splits)

lemma deferred_handle:
  "deferred (snd c) = Some r \<Longrightarrow> deferred (snd (handle e ev c)) = Some r"
  by (cases c; cases ev) (auto simp: callbacks Let_def split: case_splits)

lemma uid_handle: "uid (snd (handle e ev c)) = uid (snd c)"
  by (cases c; cases ev) (auto simp: callbacks Let_def split: case_splits)

lemma xhr_handle: "xhr (snd (handle e ev c)) = xhr (snd c)"
  by (cases c; cases ev) (auto simp: callbacks Let_def split: case_splits)

lemma controller_handle: "controller (snd (handle e ev c)) = controller (snd c)"
  by (cases c; cases ev) (auto simp: callbacks Let_def split: case_splits)

lemma aborted_handle: "aborted (snd c) \<Longrightarrow> aborted (snd (handle e ev c))"
  by (cases c; cases ev) (auto simp: callbacks Let_def split: case_splits)

lemma registry_handle:
  "fst (handle e ev c) = fst c \<or>
   (fst (handle e ev c) = remove1 (uid (snd c)) (fst c) \<and> deferred (snd (handle e ev c)) \<noteq> None)"
  by (cases c; cases ev) (auto simp: callbacks Let_def removeElement_eq split: case_splits)

lemma trigger_handle: "trigger ev (snd c) \<Longrightarrow> deferred (snd (handle e ev c)) \<noteq> None"
  by (cases c; cases ev) (auto simp: callbacks Let_def split: case_splits)

lemma untriggered_handle:
  "\<not> trigger ev (snd c) \<Longrightarrow> deferred (snd c) = None \<Longrightarrow> deferred (snd (handle e ev c)) = None"
  by (cases c; cases ev) (auto simp: callbacks Let_def split: case_splits)

lemma pushes_handle:
  "count_list (trace (snd (handle e ev c))) UploadsPush = count_list (trace (snd c)) UploadsPush"
  by (cases c; cases ev) (auto simp: callbacks Let_def split: case_splits)

lemma sent_handle: "a \<in> set (trace (snd c)) \<Longrightarrow> a \<in> set (trace (snd (handle e ev c)))"
  by (cases c; cases ev) (auto simp: callbacks Let_def split: case_splits)

lemma microtasks_fields:
  "uid (snd (microtasks c)) = uid (snd c)"
  "controller (snd (microtasks c)) = controller (snd c)"
  "xhr (snd (microtasks c)) = xhr (snd c)"
  "aborted (snd (microtasks c)) = aborted (snd c)"
  "deferred (snd (microtasks c)) = deferred (snd c)"
  "trace (snd (microtasks c)) = trace (snd c)"
  "readyState (snd (microtasks c)) = readyState (snd c)"
  "timeoutTimer (snd (microtasks c)) = timeoutTimer (snd c)"
  "promise (snd (microtasks c)) = (if promise (snd c) = None then deferred (snd c) else promise (snd c))"
  "fst (microtasks c) =
     (if deferred (snd c) \<noteq> None \<and> promise (snd c) = None then remove1 (uid (snd c)) (fst c) else fst c)"
  by (cases c; auto simp: removeElement_eq split: option.splits)+

lemma promise_step:
  "promise (snd (step e ev c)) =
     (if promise (snd c) = None then deferred (snd (handle e ev c)) else promise (snd c))"
  by (simp add: step_def microtasks_fields promise_handle)

lemma run_append: "run e (xs @ ys) c = run e ys (run e xs c)"
  by (induction xs arbitrary: c) auto

lemma run_snoc: "run e (xs @ [ev]) c = step e ev (run e xs c)"
  by (simp add: run_append)

lemma upload_inv_step:
  assumes "upload_inv reg i c" and "i \<notin> set reg"
  shows "upload_inv reg i (step e ev c)"
proof -
  have u: "uid (snd c) = i" and p: "promise (snd c) = deferred (snd c)"
    and r: "fst c = (if deferred (snd c) = None then reg @ [i] else reg)"
    using assms(1) by (simp_all add: upload_inv_def)
  have rm: "remove1 i (reg @ [i]) = reg" "remove1 i reg = reg"
    using assms(2) by (simp_all add: remove1_append remove1_idem)
  show ?thesis
  proof (cases "deferred (snd c)")
    case None
    with registry_handle [of e ev c] u r p rm show ?thesis
      by (auto simp: upload_inv_def step_def microtasks_fields uid_handle promise_handle)
  next
    case (Some s)
    with deferred_handle [of c s e ev] registry_handle [of e ev c] u r p rm show ?thesis
      by (auto simp: upload_inv_def step_def microtasks_fields uid_handle promise_handle)
  qed
qed

lemma upload_inv_start: "upload_inv reg i (uploadContent e file o' i reg)"
  by (auto simp: upload_inv_def uploadContent_def new_upload_def Let_def fold_emit split: option.splits)

lemma upload_inv_run:
  "upload_inv reg i c \<Longrightarrow> i \<notin> set reg \<Longrightarrow> upload_inv reg i (run e evs c)"
  by (induction evs arbitrary: c) (auto simp: upload_inv_step)

section \<open>The completion future settles once\<close>



lemma trigger_step: "trigger ev (snd c) \<Longrightarrow> promise (snd (step e ev c)) \<noteq> None"
  using trigger_handle [of ev c e] by (auto simp: promise_step)


lemma pending_start: "promise (snd (uploadContent e file o' i reg)) = None"
  "deferred (snd (uploadContent e file o' i reg)) = None"
  using upload_inv_start [of reg i e "file" o']
  by (auto simp: upload_inv_def uploadContent_def new_upload_def Let_def fold_emit split: option.splits)

lemma untriggered_step:
  "\<not> trigger ev (snd c) \<Longrightarrow> deferred (snd c) = None \<Longrightarrow> promise (snd c) = None \<Longrightarrow>
   deferred (snd (step e ev c)) = None \<and> promise (snd (step e ev c)) = None
   \<and> fst (step e ev c) = fst c"
  using untriggered_handle [of ev c e] registry_handle [of e ev c]
  by (auto simp: step_def microtasks_fields promise_handle)

lemma untriggered_run:
  "untriggered e evs c \<Longrightarrow> deferred (snd c) = None \<Longrightarrow> promise (snd c) = None \<Longrightarrow>
   deferred (snd (run e evs c)) = None \<and> promise (snd (run e evs c)) = None
   \<and> fst (run e evs c) = fst c"
proof (induction evs arbitrary: c)
  case Nil
  then show ?case by simp
next
  case (Cons ev evs)
  from Cons.prems untriggered_step [of ev c e]
  have "deferred (snd (step e ev c)) = None" "promise (snd (step e ev c)) = None"
    "fst (step e ev c) = fst c" "untriggered e evs (step e ev c)"
    by simp_all
  with Cons.IH [of "step e ev c"] show ?case by simp
qed


text \<open>The definitions a run on the sample inputs unfolds.\<close>

lemmas samples = sample_env_def sample_file_def no_opts_def sample_opts_def uploadContent_def
  new_upload_def step_def callbacks Let_def upload_url_def upload_headers_def getUrl_def
  includeFilename_of_def fileName_def contentType_def queryParams_def truthy_str_def
  truthy_bool_def abortController_of_def


section \<open>The registry\<close>

lemma pushes_step:
  "count_list (trace (snd (step e ev c))) UploadsPush = count_list (trace (snd c)) UploadsPush"
  by (simp add: step_def microtasks_fields pushes_handle)

lemma pushes_run:
  "count_list (trace (snd (run e evs c))) UploadsPush = count_list (trace (snd c)) UploadsPush"
  by (induction evs arbitrary: c) (auto simp: pushes_step)

lemma pushes_start: "count_list (trace (snd (uploadContent e payload o' i reg))) UploadsPush = 1"
proof (cases "XMLHttpRequest e")
  case None
  then show ?thesis by (simp add: trace_uploadContent_delegated)
next
  case (Some impl)
  have "count_list (map (\<lambda>h. XhrSetRequestHeader (fst h) (snd h)) hs) UploadsPush = 0" for hs
    by (induction hs) auto
  with Some show ?thesis by (simp add: trace_uploadContent_xhr)
qed

lemma registry_start: "fst (uploadContent e payload o' i reg) = reg @ [i]"
  by (auto simp: uploadContent_def new_upload_def Let_def fold_emit split: option.splits)

lemma occurs_before_headers:
  "occurs_before a b (map (\<lambda>h. XhrSetRequestHeader (fst h) (snd h)) hs @ rest) = occurs_before a b rest"
  if "\<And>x y. a \<noteq> XhrSetRequestHeader x y" "\<And>x y. b \<noteq> XhrSetRequestHeader x y"
  using that by (induction hs) auto

lemma send_before_push:
  "occurs_before
     (case XMLHttpRequest e of
        Some impl \<Rightarrow> XhrSend payload
      | None \<Rightarrow> AuthedRequest ''POST'' ''/upload'' (queryParams payload o') payload
                  [(''Content-Type'', contentType payload o')] (abortController_of i o'))
     UploadsPush (trace (snd (uploadContent e payload o' i reg)))"
proof (cases "XMLHttpRequest e")
  case None
  then show ?thesis by (simp add: trace_uploadContent_delegated)
next
  case (Some impl)
  then show ?thesis
    by (simp add: trace_uploadContent_xhr occurs_before_headers)
qed

lemma registry_of_upload:
  assumes "i \<notin> set reg"
  shows "fst (uploadContent e payload o' i reg) = reg @ [i]
    \<and> occurs_before
         (case XMLHttpRequest e of
            Some impl \<Rightarrow> XhrSend payload
          | None \<Rightarrow> AuthedRequest ''POST'' ''/upload'' (queryParams payload o') payload
                      [(''Content-Type'', contentType payload o')] (abortController_of i o'))
         UploadsPush (trace (snd (uploadContent e payload o' i reg)))
    \<and> count_list (trace (snd (run e evs (uploadContent e payload o' i reg)))) UploadsPush = 1
    \<and> fst (run e evs (uploadContent e payload o' i reg))
        = (case promise (snd (run e evs (uploadContent e payload o' i reg))) of
             None \<Rightarrow> reg @ [i]
           | Some r \<Rightarrow> reg)
    \<and> (trigger ev (snd (run e evs (uploadContent e payload o' i reg))) \<longrightarrow>
         fst (run e (evs @ [ev]) (uploadContent e payload o' i reg)) = reg)"
proof -
  let ?c0 = "uploadContent e payload o' i reg"
  have inv: "upload_inv reg i (run e evs' ?c0)" for evs'
    using assms by (simp add: upload_inv_run upload_inv_start)
  have reg: "fst (run e evs' ?c0) = (case promise (snd (run e evs' ?c0)) of None \<Rightarrow> reg @ [i] | Some r \<Rightarrow> reg)"
    for evs'
    using inv [of evs'] by (auto simp: upload_inv_def split: option.splits)
  have "fst (run e (evs @ [ev]) ?c0) = reg" if "trigger ev (snd (run e evs ?c0))"
    using reg [of "evs @ [ev]"] trigger_step [OF that, of e] by (auto simp: run_snoc)
  with reg [of evs] show ?thesis
    by (simp add: registry_start send_before_push pushes_run pushes_start)
qed

text \<open>
  C2 as stated has the push before the payload is sent. In the streaming strategy
  \<^verbatim>\<open>xhr.send(file)\<close> (line 151) comes first and \<^verbatim>\<open>this.uploads.push\<close> (line 183) after it.
\<close>

theorem push_after_send_counterexample:
  "occurs_before (XhrSend sample_file) UploadsPush
     (trace (snd (uploadContent (sample_env (Some Standard)) sample_file no_opts 0 [])))
   \<and> \<not> occurs_before UploadsPush (XhrSend sample_file)
     (trace (snd (uploadContent (sample_env (Some Standard)) sample_file no_opts 0 [])))"
  by (simp add: samples)

section \<open>The terminal state of the transport\<close>

lemma xhr_run: "xhr (snd (run e evs c)) = xhr (snd c)"
  by (induction evs arbitrary: c) (auto simp: step_def microtasks_fields xhr_handle)

lemma xhr_start: "xhr (snd (uploadContent e payload o' i reg)) = XMLHttpRequest e"
  by (auto simp: uploadContent_def new_upload_def Let_def fold_emit split: option.splits)

lemma promise_eq_deferred_step:
  "promise (snd c) = deferred (snd c) \<Longrightarrow> promise (snd (step e ev c)) = deferred (snd (step e ev c))"
  using deferred_handle [of c _ e ev]
  by (cases "deferred (snd c)") (auto simp: step_def microtasks_fields promise_handle)

lemma promise_eq_deferred_run:
  "promise (snd c) = deferred (snd c) \<Longrightarrow> promise (snd (run e evs c)) = deferred (snd (run e evs c))"
  by (induction evs arbitrary: c) (auto simp: promise_eq_deferred_step)

lemma promise_eq_deferred:
  "promise (snd (run e evs (uploadContent e payload o' i reg)))
     = deferred (snd (run e evs (uploadContent e payload o' i reg)))"
  by (simp add: promise_eq_deferred_run pending_start)

lemma done_pending:
  assumes "xhr u \<noteq> None" and "in_flight u" and "deferred u = None" and "promise u = None"
  shows "promise (snd (step e (ReadyStateChange DONE st stext body) (reg, u))) =
     Some (if st = 0 then Rejected (DOMException stext ''AbortError'')
           else if body = [] then Rejected (ConnectionError ''request failed'' (Error ''No response body.''))
           else if st \<ge> 400 then
             (case parseErrorResponse e st body of
                Inr err \<Rightarrow> Rejected err
              | Inl ex \<Rightarrow> if error_name ex = ''AbortError'' then Rejected ex
                          else Rejected (ConnectionError ''request failed'' ex))
           else
             (case JSON_parse e body of
                Inr v \<Rightarrow> Resolved v
              | Inl ex \<Rightarrow> if error_name ex = ''AbortError'' then Rejected ex
                          else Rejected (ConnectionError ''request failed'' ex)))"
  using assms
  by (auto simp: step_def microtasks_fields promise_handle callbacks Let_def split: case_splits)

text \<open>
  C6, as the code has it. In the streaming strategy, when the transport reports DONE with
  a status other than zero (a success status in particular) and an empty body while the
  completion future is pending, the future is rejected, with the ConnectionError
  \<^verbatim>\<open>request failed\<close> that wraps the error \<^verbatim>\<open>No response body.\<close>; it is not resolved.
\<close>

theorem empty_body_is_connection_error:
  assumes "XMLHttpRequest e = Some impl"
    and "in_flight (snd (run e evs (uploadContent e payload o' i reg)))"
    and "promise (snd (run e evs (uploadContent e payload o' i reg))) = None"
    and "st \<noteq> 0"
  shows "promise (snd (run e (evs @ [ReadyStateChange DONE st stext []]) (uploadContent e payload o' i reg)))
         = Some (Rejected (ConnectionError ''request failed'' (Error ''No response body.'')))"
proof -
  let ?here = "run e evs (uploadContent e payload o' i reg)"
  have "xhr (snd ?here) \<noteq> None"
    using assms(1) by (simp add: xhr_run xhr_start)
  moreover have "deferred (snd ?here) = None"
    using assms(3) promise_eq_deferred [of e evs payload o' i reg] by simp
  ultimately show ?thesis
    using done_pending [of "snd ?here" e st stext "[]" "fst ?here"] assms(2,3,4)
    by (simp add: run_snoc)
qed

theorem empty_body_is_connection_error_witness:
  "in_flight (snd (run (sample_env (Some Standard)) [UploadProgress 3 3]
      (uploadContent (sample_env (Some Standard)) sample_file no_opts 0 [])))
   \<and> promise (snd (run (sample_env (Some Standard)) [UploadProgress 3 3]
      (uploadContent (sample_env (Some Standard)) sample_file no_opts 0 []))) = None
   \<and> promise (snd (run (sample_env (Some Standard))
        ([UploadProgress 3 3] @ [ReadyStateChange DONE 200 ''OK'' []])
        (uploadContent (sample_env (Some Standard)) sample_file no_opts 0 [])))
       = Some (Rejected (ConnectionError ''request failed'' (Error ''No response body.'')))"
  using empty_body_is_connection_error [of "sample_env (Some Standard)" Standard "[UploadProgress 3 3]"
      sample_file no_opts 0 "[]" 200 "''OK''"]
  by (simp add: samples)

text \<open>
  C6 as stated names the error a ProtocolError. The code has no such error: the
  \<^verbatim>\<open>catch\<close> of lines 114 to 120 wraps the error of line 106 in a ConnectionError.
\<close>

theorem empty_body_counterexample:
  "promise (snd (run (sample_env (Some Standard)) [ReadyStateChange DONE 200 ''OK'' []]
      (uploadContent (sample_env (Some Standard)) sample_file no_opts 0 [])))
     = Some (Rejected (ConnectionError ''request failed'' (Error ''No response body.'')))
   \<and> error_name (ConnectionError ''request failed'' (Error ''No response body.'')) \<noteq> ''ProtocolError''"
  by (simp add: samples)

lemma standard_handle:
  "xhr (snd c) = Some Standard \<Longrightarrow> (in_flight (snd c) \<longrightarrow> deferred (snd c) = None) \<Longrightarrow>
   in_flight (snd (handle e ev c)) \<longrightarrow> deferred (snd (handle e ev c)) = None"
  by (cases c; cases ev) (auto simp: callbacks Let_def split: case_splits)

lemma in_flight_microtasks: "in_flight (snd (microtasks c)) = in_flight (snd c)"
  by (simp add: in_flight_def microtasks_fields)

lemma standard_run:
  "xhr (snd c) = Some Standard \<Longrightarrow> (in_flight (snd c) \<longrightarrow> deferred (snd c) = None) \<Longrightarrow>
   in_flight (snd (run e evs c)) \<longrightarrow> deferred (snd (run e evs c)) = None"
proof (induction evs arbitrary: c)
  case Nil
  then show ?case by simp
next
  case (Cons ev evs)
  have "xhr (snd (step e ev c)) = Some Standard"
    using Cons.prems(1) by (simp add: step_def microtasks_fields xhr_handle)
  moreover have "in_flight (snd (step e ev c)) \<longrightarrow> deferred (snd (step e ev c)) = None"
    using standard_handle [OF Cons.prems, of e ev]
    by (simp add: step_def microtasks_fields in_flight_microtasks)
  ultimately show ?case
    using Cons.IH [of "step e ev c"] by simp
qed

text \<open>
  C7. In the streaming strategy, when the transport reports DONE with status zero, the
  completion future is rejected with the DOMException named \<^verbatim>\<open>AbortError\<close> that line 103
  throws, whatever the body is and whether or not \<^verbatim>\<open>abort()\<close> was ever called: the
  \<^verbatim>\<open>catch\<close> passes it on before it wraps anything in a ConnectionError. With the standard
  transport the future is always pending when the terminal state arrives; with another
  transport it is assumed to be.
\<close>

theorem status_zero_is_abort:
  assumes "XMLHttpRequest e = Some impl"
    and "in_flight (snd (run e evs (uploadContent e payload o' i reg)))"
    and "impl = Standard \<or> promise (snd (run e evs (uploadContent e payload o' i reg))) = None"
  shows "promise (snd (run e (evs @ [ReadyStateChange DONE 0 stext body]) (uploadContent e payload o' i reg)))
         = Some (Rejected (DOMException stext ''AbortError''))"
proof -
  let ?start = "uploadContent e payload o' i reg"
  let ?here = "run e evs ?start"
  have x: "xhr (snd ?here) = Some impl" "xhr (snd ?start) = Some impl"
    using assms(1) by (simp_all add: xhr_run xhr_start)
  have pd: "promise (snd ?here) = deferred (snd ?here)"
    by (rule promise_eq_deferred)
  have "deferred (snd ?here) = None"
  proof (cases "impl = Standard")
    case True
    with standard_run [of ?start e evs] x(2) assms(2) show ?thesis
      by (simp add: pending_start)
  next
    case False
    with assms(3) pd show ?thesis by simp
  qed
  with pd x(1) assms(2) done_pending [of "snd ?here" e 0 stext body "fst ?here"] show ?thesis
    by (simp add: run_snoc)
qed

theorem status_zero_is_abort_witness:
  "in_flight (snd (run (sample_env (Some Standard)) [UploadProgress 3 3]
      (uploadContent (sample_env (Some Standard)) sample_file no_opts 0 [])))
   \<and> promise (snd (run (sample_env (Some Standard))
        ([UploadProgress 3 3] @ [ReadyStateChange DONE 0 [] ''{}''])
        (uploadContent (sample_env (Some Standard)) sample_file no_opts 0 [])))
       = Some (Rejected (DOMException [] ''AbortError''))
   \<and> in_flight (snd (run (sample_env (Some Silent)) []
      (uploadContent (sample_env (Some Silent)) sample_file no_opts 0 [])))
   \<and> promise (snd (run (sample_env (Some Silent)) []
      (uploadContent (sample_env (Some Silent)) sample_file no_opts 0 []))) = None
   \<and> promise (snd (run (sample_env (Some Silent)) ([] @ [ReadyStateChange DONE 0 [] []])
        (uploadContent (sample_env (Some Silent)) sample_file no_opts 0 [])))
       = Some (Rejected (DOMException [] ''AbortError''))"
  using status_zero_is_abort [of "sample_env (Some Standard)" Standard "[UploadProgress 3 3]"
      sample_file no_opts 0 "[]" "[]" "''{}''"]
    status_zero_is_abort [of "sample_env (Some Silent)" Silent "[]"
      sample_file no_opts 0 "[]" "[]" "[]"]
  by (simp add: samples)

section \<open>A signal that has already fired\<close>

lemma aborted_run: "aborted (snd c) \<Longrightarrow> aborted (snd (run e evs c))"
  by (induction evs arbitrary: c) (auto simp: step_def microtasks_fields aborted_handle)

lemma aborted_start:
  "aborted (snd (uploadContent e payload o' i reg)) = snd (abortController_of i o')"
  by (auto simp: uploadContent_def new_upload_def Let_def fold_emit split: option.splits)

lemma sent_run: "a \<in> set (trace (snd c)) \<Longrightarrow> a \<in> set (trace (snd (run e evs c)))"
  by (induction evs arbitrary: c) (auto simp: step_def microtasks_fields sent_handle)

lemma sent_start:
  "(case XMLHttpRequest e of
      Some impl \<Rightarrow> XhrSend payload
    | None \<Rightarrow> AuthedRequest ''POST'' ''/upload'' (queryParams payload o') payload
                [(''Content-Type'', contentType payload o')] (abortController_of i o'))
   \<in> set (trace (snd (uploadContent e payload o' i reg)))"
  by (cases "XMLHttpRequest e") (simp_all add: trace_uploadContent_xhr trace_uploadContent_delegated)

lemma abort_after_abort:
  "aborted (snd c) \<Longrightarrow> deferred (snd c) = None \<Longrightarrow> step e Abort c = c"
  by (cases c) (simp add: step_def abort_def)

text \<open>
  C10, as the code has it. In the streaming strategy, when the caller supplies a
  controller whose signal has already fired, the upload is not cancelled: the payload is
  sent all the same; as long as no trigger arrives (no terminal report of the transport,
  no timeout) the completion future stays pending and the upload stays in the registry;
  and \<^verbatim>\<open>abort()\<close> on the controller is not a trigger and changes nothing, since the
  listeners of a signal that has fired never run.
\<close>

theorem aborted_signal_does_not_cancel:
  assumes "XMLHttpRequest e = Some impl"
    and "abortController o' = Some (c, True)"
    and "untriggered e evs (uploadContent e payload o' i reg)"
  shows "XhrSend payload \<in> set (trace (snd (run e evs (uploadContent e payload o' i reg))))
    \<and> promise (snd (run e evs (uploadContent e payload o' i reg))) = None
    \<and> fst (run e evs (uploadContent e payload o' i reg)) = reg @ [i]
    \<and> \<not> trigger Abort (snd (run e evs (uploadContent e payload o' i reg)))
    \<and> run e (evs @ [Abort]) (uploadContent e payload o' i reg)
        = run e evs (uploadContent e payload o' i reg)"
proof -
  let ?start = "uploadContent e payload o' i reg"
  let ?here = "run e evs ?start"
  have quiet: "deferred (snd ?here) = None" "promise (snd ?here) = None" "fst ?here = reg @ [i]"
    using untriggered_run [OF assms(3)] by (simp_all add: pending_start registry_start)
  have ab: "aborted (snd ?here)"
    using assms(2) by (simp add: aborted_run aborted_start abortController_of_def)
  have "step e Abort ?here = ?here"
    using ab quiet(1) by (rule abort_after_abort)
  moreover have "XhrSend payload \<in> set (trace (snd ?start))"
    using assms(1) by (simp add: trace_uploadContent_xhr)
  then have "XhrSend payload \<in> set (trace (snd ?here))"
    by (rule sent_run)
  ultimately show ?thesis
    using quiet ab by (simp add: run_snoc)
qed

theorem aborted_signal_does_not_cancel_witness:
  "untriggered (sample_env (Some Standard)) [Abort, UploadProgress 1 2, Elapse 29999, Abort]
     (uploadContent (sample_env (Some Standard)) sample_file
        (no_opts\<lparr>abortController := Some (Callers 0, True)\<rparr>) 0 [])
   \<and> XhrSend sample_file
       \<in> set (trace (snd (run (sample_env (Some Standard)) [Abort, UploadProgress 1 2, Elapse 29999, Abort]
           (uploadContent (sample_env (Some Standard)) sample_file
              (no_opts\<lparr>abortController := Some (Callers 0, True)\<rparr>) 0 []))))
   \<and> promise (snd (run (sample_env (Some Standard)) [Abort, UploadProgress 1 2, Elapse 29999, Abort]
           (uploadContent (sample_env (Some Standard)) sample_file
              (no_opts\<lparr>abortController := Some (Callers 0, True)\<rparr>) 0 []))) = None
   \<and> fst (run (sample_env (Some Standard)) [Abort, UploadProgress 1 2, Elapse 29999, Abort]
           (uploadContent (sample_env (Some Standard)) sample_file
              (no_opts\<lparr>abortController := Some (Callers 0, True)\<rparr>) 0 [])) = [0]"
  using aborted_signal_does_not_cancel [of "sample_env (Some Standard)" Standard
      "no_opts\<lparr>abortController := Some (Callers 0, True)\<rparr>" "Callers 0"
      "[Abort, UploadProgress 1 2, Elapse 29999, Abort]" sample_file 0 "[]"]
  by (simp add: samples)

text \<open>
  C10 as stated covers both strategies. In the delegated strategy line 168 hands the
  signal that has fired to \<^verbatim>\<open>authedRequest\<close>, whose promise is then rejected with an
  AbortError whatever the server would have answered, so the pre-existing abort does
  cancel the upload: the future is rejected with that AbortError and the handle removed,
  where the same exchange without the fired signal resolves the future.
\<close>

theorem aborted_signal_cancels_delegated_counterexample:
  "AuthedRequest ''POST'' ''/upload'' [(''filename'', ''a.bin'')] sample_file
       [(''Content-Type'', ''application/octet-stream'')] (Callers 0, True)
     \<in> set (trace (snd (uploadContent (sample_env None) sample_file
               (no_opts\<lparr>abortController := Some (Callers 0, True)\<rparr>) 0 [])))
   \<and> promise (snd (run (sample_env None) [Delegated (Inr (ResponseObject ''{}''))]
        (uploadContent (sample_env None) sample_file
           (no_opts\<lparr>abortController := Some (Callers 0, True)\<rparr>) 0 [])))
       = Some (Rejected (DOMException ''signal is aborted without reason'' ''AbortError''))
   \<and> fst (run (sample_env None) [Delegated (Inr (ResponseObject ''{}''))]
        (uploadContent (sample_env None) sample_file
           (no_opts\<lparr>abortController := Some (Callers 0, True)\<rparr>) 0 [])) = []
   \<and> promise (snd (run (sample_env None) [Delegated (Inr (ResponseObject ''{}''))]
        (uploadContent (sample_env None) sample_file no_opts 0 [])))
       = Some (Resolved (JObj []))"
  by (simp add: samples)

section \<open>The result of a successful upload\<close>

lemma request_ignores_result_options:
  "fileName payload (o'\<lparr>rawResponse := raw, onlyContentUri := only\<rparr>) = fileName payload o'"
  "includeFilename_of (o'\<lparr>rawResponse := raw, onlyContentUri := only\<rparr>) = includeFilename_of o'"
  "contentType payload (o'\<lparr>rawResponse := raw, onlyContentUri := only\<rparr>) = contentType payload o'"
  "abortController_of i (o'\<lparr>rawResponse := raw, onlyContentUri := only\<rparr>)
     = abortController_of i o'"
  "new_upload i (o'\<lparr>rawResponse := raw, onlyContentUri := only\<rparr>) = new_upload i o'"
  by (simp_all add: fileName_def includeFilename_of_def contentType_def new_upload_def
      abortController_of_def)

lemma url_ignores_result_options:
  "upload_url e payload (o'\<lparr>rawResponse := raw, onlyContentUri := only\<rparr>) = upload_url e payload o'"
  "upload_headers e payload (o'\<lparr>rawResponse := raw, onlyContentUri := only\<rparr>)
     = upload_headers e payload o'"
  "queryParams payload (o'\<lparr>rawResponse := raw, onlyContentUri := only\<rparr>) = queryParams payload o'"
  unfolding upload_url_def upload_headers_def queryParams_def request_ignores_result_options
  by (rule refl)+

text \<open>
  C1. The doc comment of \<^verbatim>\<open>uploadContent\<close> promises the raw body for
  \<^verbatim>\<open>opts.rawResponse\<close> and the content URI for \<^verbatim>\<open>opts.onlyContentUri\<close>. The code reads
  neither option: the upload it starts is the same whatever their values, and a successful
  upload with \<^verbatim>\<open>rawResponse = true\<close> resolves to the parsed body (here the empty object),
  not to the raw body (the string), in both strategies.
\<close>

theorem result_ignores_rawResponse:
  "uploadContent e payload (o'\<lparr>rawResponse := raw, onlyContentUri := only\<rparr>) i reg
     = uploadContent e payload o' i reg
   \<and> promise (snd (run (sample_env (Some Standard)) [ReadyStateChange DONE 200 ''OK'' ''{}'']
        (uploadContent (sample_env (Some Standard)) sample_file
           (no_opts\<lparr>rawResponse := Some True\<rparr>) 0 [])))
       = Some (Resolved (JObj []))
   \<and> promise (snd (run (sample_env None) [Delegated (Inr (ResponseObject ''{}''))]
        (uploadContent (sample_env None) sample_file
           (no_opts\<lparr>rawResponse := Some True\<rparr>) 0 [])))
       = Some (Resolved (JObj []))
   \<and> JObj [] \<noteq> JStr ''{}''"
proof -
  have "uploadContent e payload (o'\<lparr>rawResponse := raw, onlyContentUri := only\<rparr>) i reg
     = uploadContent e payload o' i reg"
    unfolding uploadContent_def request_ignores_result_options url_ignores_result_options
    by (rule refl)
  then show ?thesis
    by (simp add: samples)
qed

section \<open>The timeout\<close>

lemma timer_start:
  "timeoutTimer (snd (uploadContent e payload o' i reg))
     = (case XMLHttpRequest e of Some impl \<Rightarrow> Some 30000 | None \<Rightarrow> None)"
  by (auto simp: uploadContent_def new_upload_def Let_def fold_emit split: option.splits)

lemma in_flight_start:
  "XMLHttpRequest e = Some impl \<Longrightarrow> in_flight (snd (uploadContent e payload o' i reg))"
  by (auto simp: uploadContent_def new_upload_def Let_def fold_emit in_flight_def)

lemma no_abort_start: "XhrAbort \<notin> set (trace (snd (uploadContent e payload o' i reg)))"
  by (cases "XMLHttpRequest e")
     (auto simp add: trace_uploadContent_xhr trace_uploadContent_delegated)

lemma tick_keeps_alive:
  "alive c \<Longrightarrow> gap < 30000 \<Longrightarrow> alive (step e (UploadProgress l t) (step e (Elapse gap) c))"
  by (cases c) (auto simp: alive_def step_def callbacks Let_def split: case_splits)

lemma ticks_keep_alive:
  "alive c \<Longrightarrow> \<forall>(gap, l, t) \<in> set ts. gap < 30000 \<Longrightarrow> alive (run e (ticks ts) c)"
proof (induction ts arbitrary: c)
  case Nil
  then show ?case by simp
next
  case (Cons tick ts)
  obtain gap l t where tick: "tick = (gap, l, t)"
    by (cases tick) auto
  with Cons.prems have "alive (step e (UploadProgress l t) (step e (Elapse gap) c))"
    by (simp add: tick_keeps_alive)
  with Cons.IH [of "step e (UploadProgress l t) (step e (Elapse gap) c)"] Cons.prems(2) tick
  show ?case by simp
qed

lemma silence_times_out:
  assumes "alive c" and "30000 \<le> ms"
  shows "XhrAbort \<in> set (trace (snd (step e (Elapse ms) c)))
    \<and> promise (snd (step e (Elapse ms) c))
        = Some (Rejected (if xhr (snd c) = Some Standard then DOMException [] ''AbortError''
                          else Error ''Timeout''))"
  using assms
  by (cases c) (auto simp: alive_def step_def callbacks Let_def split: case_splits)

lemma alive_start: "XMLHttpRequest e = Some impl \<Longrightarrow> alive (uploadContent e payload o' i reg)"
  by (simp add: alive_def xhr_start in_flight_start pending_start timer_start no_abort_start)

text \<open>
  C5. The timer is armed with 30 seconds at the start and again at every progress tick,
  ticks less than 30 seconds apart keep the upload alive (\<open>ticks_keep_alive\<close>), and 30
  seconds of silence call \<^verbatim>\<open>xhr.abort\<close> and settle the future (\<open>silence_times_out\<close>).
  But with the standard transport the future is not settled with the timeout error:
  \<^verbatim>\<open>timeoutFn\<close> calls \<^verbatim>\<open>xhr.abort()\<close> first, which runs the \<^verbatim>\<open>readystatechange\<close>
  handler with status zero, and the handler's AbortError settles the future before
  \<^verbatim>\<open>defer.reject(new Error("Timeout"))\<close> is reached.
\<close>

theorem timeout_settles_with_abort_error:
  "promise (snd (run (e\<lparr>XMLHttpRequest := Some Standard\<rparr>) [Elapse 30000]
      (uploadContent (e\<lparr>XMLHttpRequest := Some Standard\<rparr>) payload o' i reg)))
     = Some (Rejected (DOMException [] ''AbortError''))
   \<and> promise (snd (run (e\<lparr>XMLHttpRequest := Some Standard\<rparr>)
      [Elapse 29000, UploadProgress l t, Elapse 30000]
      (uploadContent (e\<lparr>XMLHttpRequest := Some Standard\<rparr>) payload o' i reg)))
     = Some (Rejected (DOMException [] ''AbortError''))
   \<and> Rejected (DOMException [] ''AbortError'') \<noteq> Rejected (Error ''Timeout'')"
proof -
  let ?e = "e\<lparr>XMLHttpRequest := Some Standard\<rparr>"
  let ?start = "uploadContent ?e payload o' i reg"
  have a0: "alive ?start"
    by (rule alive_start [of ?e Standard]) simp
  have a1: "alive (run ?e (ticks [(29000, l, t)]) ?start)"
    using a0 by (rule ticks_keep_alive) simp
  have x: "xhr (snd ?start) = Some Standard" "xhr (snd (run ?e (ticks [(29000, l, t)]) ?start)) = Some Standard"
    by (simp_all add: step_def microtasks_fields xhr_handle xhr_start)
  from silence_times_out [OF a0, of 30000 ?e] silence_times_out [OF a1, of 30000 ?e] x
  show ?thesis by simp
qed

section \<open>The invariant of the API object\<close>

lemma abort_fired: "aborted u \<Longrightarrow> abort e (reg, u) = (reg, u)"
  by (simp add: abort_def)

lemma abort_unfired:
  assumes "\<not> aborted u"
  shows "fst (abort e (reg, u)) = remove1 (uid u) reg"
    and "aborted (snd (abort e (reg, u)))"
    and "deferred (snd (abort e (reg, u))) \<noteq> None"
  using assms
  by (auto simp: callbacks Let_def removeElement_eq split: case_splits)

lemma tidy_handle_microtasks:
  assumes "distinct reg" and "promise u = None \<or> promise u = deferred u"
    and "deferred u \<noteq> None \<longrightarrow> uid u \<notin> set reg"
  shows "tidy reg u (step e ev (reg, u))"
proof -
  let ?h = "handle e ev (reg, u)"
  have rm: "remove1 (uid u) (remove1 (uid u) reg) = remove1 (uid u) reg"
    using assms(1) by (simp add: remove1_idem)
  have rm': "deferred u \<noteq> None \<Longrightarrow> remove1 (uid u) reg = reg"
    using assms(3) by (simp add: remove1_idem)
  have ab: "aborted u \<longrightarrow> aborted (snd ?h)"
    using aborted_handle [of "(reg, u)" e ev] by simp
  show ?thesis
  proof (cases "deferred u")
    case None
    with assms(2) have "promise u = None" by auto
    with None registry_handle [of e ev "(reg, u)"] rm ab show ?thesis
      by (auto simp: tidy_def step_def microtasks_fields uid_handle controller_handle
          promise_handle pushes_handle)
  next
    case (Some r)
    with deferred_handle [of "(reg, u)" r e ev] registry_handle [of e ev "(reg, u)"]
      rm rm' assms(2) ab show ?thesis
      by (auto simp: tidy_def step_def microtasks_fields uid_handle controller_handle
          promise_handle pushes_handle)
  qed
qed

lemma tidy_abort:
  assumes "distinct reg" and "promise u = None \<or> promise u = deferred u"
    and "deferred u \<noteq> None \<longrightarrow> uid u \<notin> set reg"
  shows "tidy reg u (abort e (reg, u))"
proof (cases "aborted u")
  case True
  with assms show ?thesis
    by (auto simp: tidy_def abort_fired remove1_idem)
next
  case False
  have p: "promise (snd (abort e (reg, u))) = promise u"
    "uid (snd (abort e (reg, u))) = uid u" "controller (snd (abort e (reg, u))) = controller u"
    "count_list (trace (snd (abort e (reg, u)))) UploadsPush = count_list (trace u) UploadsPush"
    using promise_handle [of e Abort "(reg, u)"] uid_handle [of e Abort "(reg, u)"]
      controller_handle [of e Abort "(reg, u)"] pushes_handle [of e Abort "(reg, u)"]
    by simp_all
  have d: "deferred u \<noteq> None \<longrightarrow> deferred (snd (abort e (reg, u))) = deferred u"
    using deferred_handle [of "(reg, u)" _ e Abort] by auto
  from abort_unfired [OF False, of e reg] p d assms(2) show ?thesis
    by (cases "deferred u") (auto simp: tidy_def)
qed

lemma tidy_microtasks:
  assumes "distinct reg" and "promise u = None \<or> promise u = deferred u"
    and "deferred u \<noteq> None \<longrightarrow> uid u \<notin> set reg"
  shows "tidy reg u (microtasks (reg, u))"
  using assms microtasks_fields [of "(reg, u)"]
  by (auto simp: tidy_def remove1_idem simp del: microtasks.simps)

lemma promise_after_step:
  "promise u = None \<or> promise u = deferred u \<Longrightarrow>
   promise (snd (step e ev (reg, u))) = deferred (snd (step e ev (reg, u)))"
  using deferred_handle [of "(reg, u)" _ e ev]
  by (cases "deferred u") (auto simp: step_def microtasks_fields promise_handle)

lemma aborted_after_abort: "aborted (snd (abort e (reg, u)))"
  using abort_unfired(2) [of u e reg] by (cases "aborted u") (simp_all add: abort_fired)

lemma exists_controller_mono:
  "exists_controller a c \<Longrightarrow> allocated a \<le> allocated a' \<Longrightarrow> exists_controller a' c"
  by (cases c) auto

lemma exists_controller_cong:
  "allocated a' = allocated a \<Longrightarrow> exists_controller a' c = exists_controller a c"
  by (cases c) auto

lemma evolves_refl: "evolves a a"
  by (simp add: evolves_def)

lemma evolves_trans: "evolves a b \<Longrightarrow> evolves b c \<Longrightarrow> evolves a c"
  unfolding evolves_def
  by (smt (verit, best) le_trans)

lemma with_upload_none: "objects a i = None \<Longrightarrow> with_upload i f a = a"
  by (simp add: with_upload_def)

lemma with_upload_some:
  "objects a i = Some u \<Longrightarrow>
   with_upload i f a =
     a\<lparr>uploads := fst (f (uploads a, u)), objects := (objects a)(i \<mapsto> snd (f (uploads a, u)))\<rparr>"
  by (simp add: with_upload_def case_prod_beta)

lemma with_upload_other: "j \<noteq> i \<Longrightarrow> objects (with_upload i f a) j = objects a j"
  by (cases "objects a i") (simp_all add: with_upload_none with_upload_some)

lemma with_upload_same:
  "allocated (with_upload i f a) = allocated a" "fired (with_upload i f a) = fired a"
  by (cases "objects a i"; simp add: with_upload_none with_upload_some)+

lemma pending_iff: "pending a i = (\<exists>u. objects a i = Some u \<and> deferred u = None)"
  by (auto simp: pending_def split: option.splits)

lemma with_upload_ok:
  assumes inv: "api_inv a"
    and f: "\<And>reg u. distinct reg \<Longrightarrow> promise u = None \<or> promise u = deferred u \<Longrightarrow>
              (deferred u \<noteq> None \<longrightarrow> uid u \<notin> set reg) \<Longrightarrow> tidy reg u (f (reg, u))"
  shows "api_inv (with_upload i f a) \<and> evolves a (with_upload i f a)"
proof (cases "objects a i")
  case None
  with inv show ?thesis by (simp add: with_upload_none evolves_refl)
next
  case (Some u)
  define c where "c = f (uploads a, u)"
  define a' where "a' = a\<lparr>uploads := fst c, objects := (objects a)(i \<mapsto> snd c)\<rparr>"
  have w: "with_upload i f a = a'"
    using Some by (simp add: with_upload_some a'_def c_def)
  have srt: "sorted (uploads a)" and dst: "distinct (uploads a)"
    and reg: "\<And>j. (j \<in> set (uploads a)) = pending a j"
    and alloc: "\<And>j. (j < allocated a) = (objects a j \<noteq> None)"
    and obj: "\<And>j v. objects a j = Some v \<Longrightarrow>
        uid v = j \<and> (promise v = None \<or> promise v = deferred v)
        \<and> (controller v \<in> set (fired a) \<longrightarrow> aborted v) \<and> exists_controller a (controller v)"
    and frd: "\<And>k. k \<in> set (fired a) \<Longrightarrow> exists_controller a k"
    using inv unfolding api_inv_def by blast+
  have u: "uid u = i" "promise u = None \<or> promise u = deferred u"
    "controller u \<in> set (fired a) \<longrightarrow> aborted u" "exists_controller a (controller u)"
    using obj [OF Some] by simp_all
  have "deferred u \<noteq> None \<longrightarrow> i \<notin> set (uploads a)"
    using reg [of i] Some by (simp add: pending_iff)
  with u(1) have "tidy (uploads a) u c"
    unfolding c_def using f [OF dst u(2)] by simp
  then have t: "uid (snd c) = i" "controller (snd c) = controller u"
    "aborted u \<longrightarrow> aborted (snd c)"
    "deferred u \<noteq> None \<longrightarrow> deferred (snd c) = deferred u"
    "promise (snd c) = None \<or> promise (snd c) = deferred (snd c)"
    "count_list (trace (snd c)) UploadsPush = count_list (trace u) UploadsPush"
    "fst c = (if deferred (snd c) = None then uploads a else remove1 i (uploads a))"
    using u(1) by (simp_all add: tidy_def)
  have p': "pending a' j = (if j = i then deferred (snd c) = None else pending a j)" for j
    by (simp add: a'_def pending_def)
  have ua: "uploads a' = fst c" and oa: "objects a' = (objects a)(i \<mapsto> snd c)"
    and fa: "fired a' = fired a" and al: "allocated a' = allocated a"
    by (simp_all add: a'_def)
  have ec: "exists_controller a' k = exists_controller a k" for k
    by (rule exists_controller_cong) (rule al)
  have "sorted (uploads a')" "distinct (uploads a')"
    using srt dst t(7) by (simp_all add: ua sorted_remove1)
  moreover have "(j \<in> set (uploads a')) = pending a' j" for j
  proof (cases "deferred (snd c)")
    case None
    with t(4) have "deferred u = None" by auto
    with Some have "pending a i" by (simp add: pending_iff)
    with None t(7) reg show ?thesis
      by (auto simp: p' ua)
  next
    case (Some r)
    with t(7) dst reg show ?thesis
      by (auto simp: p' ua)
  qed
  moreover have "(j < allocated a') = (objects a' j \<noteq> None)" for j
    using alloc [of j] Some by (auto simp: oa al)
  moreover have "uid v = j \<and> (promise v = None \<or> promise v = deferred v)
        \<and> (controller v \<in> set (fired a') \<longrightarrow> aborted v) \<and> exists_controller a' (controller v)"
    if "objects a' j = Some v" for j v
  proof (cases "j = i")
    case True
    with that have "v = snd c" by (simp add: oa)
    with True t u show ?thesis
      by (simp add: fa ec)
  next
    case False
    with that have "objects a j = Some v" by (simp add: oa)
    from obj [OF this] show ?thesis
      by (simp add: fa ec)
  qed
  moreover have "exists_controller a' k" if "k \<in> set (fired a')" for k
    using that frd [of k] by (simp add: fa ec)
  ultimately have "api_inv a'"
    unfolding api_inv_def by blast
  moreover have "evolves a a'"
    unfolding evolves_def using Some t by (auto simp: oa al)
  ultimately show ?thesis
    by (simp add: w)
qed


lemma aborted_handle_eq: "ev \<noteq> Abort \<Longrightarrow> aborted (snd (handle e ev c)) = aborted (snd c)"
  by (cases c; cases ev) (auto simp: callbacks Let_def split: case_splits)

lemma fold_with_upload_same:
  "allocated (fold (\<lambda>i. with_upload i f) js a) = allocated a"
  "fired (fold (\<lambda>i. with_upload i f) js a) = fired a"
  by (induction js arbitrary: a) (simp_all add: with_upload_same)

lemma fold_with_upload_other:
  "j \<notin> set js \<Longrightarrow> objects (fold (\<lambda>i. with_upload i f) js a) j = objects a j"
  by (induction js arbitrary: a) (simp_all add: with_upload_other)

lemma fold_with_upload_ok:
  assumes f: "\<And>reg u. distinct reg \<Longrightarrow> promise u = None \<or> promise u = deferred u \<Longrightarrow>
              (deferred u \<noteq> None \<longrightarrow> uid u \<notin> set reg) \<Longrightarrow> tidy reg u (f (reg, u))"
  shows "api_inv a \<Longrightarrow>
    api_inv (fold (\<lambda>i. with_upload i f) js a) \<and> evolves a (fold (\<lambda>i. with_upload i f) js a)"
proof (induction js arbitrary: a)
  case Nil
  then show ?case by (simp add: evolves_refl)
next
  case (Cons j js)
  from with_upload_ok [OF Cons.prems f, of j]
  have 1: "api_inv (with_upload j f a)" and 2: "evolves a (with_upload j f a)"
    by simp_all
  from Cons.IH [OF 1] 2 show ?case
    by (auto intro: evolves_trans)
qed

lemma fold_abort_ok:
  "api_inv a \<Longrightarrow>
   api_inv (fold (\<lambda>i. with_upload i (abort e)) js a)
   \<and> evolves a (fold (\<lambda>i. with_upload i (abort e)) js a)"
  by (rule fold_with_upload_ok) (rule tidy_abort)

lemma fold_microtasks_ok:
  "api_inv a \<Longrightarrow>
   api_inv (fold (\<lambda>i. with_upload i microtasks) js a)
   \<and> evolves a (fold (\<lambda>i. with_upload i microtasks) js a)"
  by (rule fold_with_upload_ok) (rule tidy_microtasks)

lemma evolves_object:
  "evolves a b \<Longrightarrow> objects a i = Some u \<Longrightarrow>
   \<exists>v. objects b i = Some v \<and> controller v = controller u \<and> (aborted u \<longrightarrow> aborted v)
     \<and> (deferred u \<noteq> None \<longrightarrow> deferred v = deferred u)
     \<and> count_list (trace v) UploadsPush = count_list (trace u) UploadsPush"
  unfolding evolves_def by blast

lemma fold_abort_aborted:
  "api_inv a \<Longrightarrow> i \<in> set js \<Longrightarrow>
   objects (fold (\<lambda>i. with_upload i (abort e)) js a) i = Some v \<Longrightarrow> aborted v"
proof (induction js arbitrary: a)
  case Nil
  then show ?case by simp
next
  case (Cons j js)
  let ?a' = "with_upload j (abort e) a"
  have inv': "api_inv ?a'"
    using fold_abort_ok [OF Cons.prems(1), of e "[j]"] by simp
  show ?case
  proof (cases "i \<in> set js")
    case True
    from Cons.IH [OF inv' True] Cons.prems(3) show ?thesis by simp
  next
    case False
    with Cons.prems(2) have ij: "i = j" by simp
    from False Cons.prems(3) have o: "objects ?a' i = Some v"
      by (simp add: fold_with_upload_other)
    show ?thesis
    proof (cases "objects a i")
      case None
      with o ij show ?thesis by (simp add: with_upload_none)
    next
      case (Some u)
      with o ij have "v = snd (abort e (uploads a, u))"
        by (simp add: with_upload_some)
      then show ?thesis by (simp add: aborted_after_abort)
    qed
  qed
qed

lemma abort_pending:
  assumes "\<not> aborted u" and "deferred u = None"
  shows "\<exists>err. deferred (snd (abort e (reg, u))) = Some (Rejected err)
           \<and> error_name err = ''AbortError''"
  using assms
  by (auto simp: callbacks Let_def removeElement_eq split: case_splits)

lemma fold_abort_settles:
  "api_inv a \<Longrightarrow> i \<in> set js \<Longrightarrow> objects a i = Some u \<Longrightarrow> \<not> aborted u \<Longrightarrow>
   \<exists>v. objects (fold (\<lambda>i. with_upload i (abort e)) js a) i = Some v \<and> deferred v \<noteq> None
     \<and> (deferred u = None \<longrightarrow>
          (\<exists>err. deferred v = Some (Rejected err) \<and> error_name err = ''AbortError''))"
proof (induction js arbitrary: a)
  case Nil
  then show ?case by simp
next
  case (Cons j js)
  let ?a' = "with_upload j (abort e) a"
  have inv': "api_inv ?a'"
    using fold_abort_ok [OF Cons.prems(1), of e "[j]"] by simp
  show ?case
  proof (cases "j = i")
    case True
    define w where "w = snd (abort e (uploads a, u))"
    have o: "objects ?a' i = Some w"
      using True Cons.prems(3) by (simp add: with_upload_some w_def)
    have d: "deferred w \<noteq> None"
      using abort_unfired(3) [OF Cons.prems(4), of e "uploads a"] by (simp add: w_def)
    have r: "deferred u = None \<longrightarrow>
        (\<exists>err. deferred w = Some (Rejected err) \<and> error_name err = ''AbortError'')"
      using abort_pending [OF Cons.prems(4), of e "uploads a"] by (simp add: w_def)
    from fold_abort_ok [OF inv', of e js] have "evolves ?a' (fold (\<lambda>i. with_upload i (abort e)) js ?a')"
      by simp
    from evolves_object [OF this o] d r show ?thesis
      by auto
  next
    case False
    with Cons.prems(2) have "i \<in> set js" by simp
    moreover from False Cons.prems(3) have "objects ?a' i = Some u"
      by (simp add: with_upload_other)
    ultimately show ?thesis
      using Cons.IH [OF inv' _ _ Cons.prems(4)] by simp
  qed
qed

lemma attached_iff:
  "api_inv a \<Longrightarrow> (i \<in> set (attached a c)) = (\<exists>u. objects a i = Some u \<and> controller u = c)"
  unfolding api_inv_def attached_def by (auto split: option.splits)

lemma api_inv_fired:
  assumes "api_inv b" and "exists_controller b c"
    and "\<And>i v. objects b i = Some v \<Longrightarrow> controller v = c \<Longrightarrow> aborted v"
  shows "api_inv (b\<lparr>fired := c # fired b\<rparr>)"
proof -
  have p: "pending (b\<lparr>fired := c # fired b\<rparr>) = pending b"
    by (simp add: pending_def fun_eq_iff)
  have ec: "exists_controller (b\<lparr>fired := c # fired b\<rparr>) k = exists_controller b k" for k
    by (rule exists_controller_cong) simp
  from assms show ?thesis
    unfolding api_inv_def p ec by auto
qed

lemma abort_controller_ok:
  assumes inv: "api_inv a"
  shows "api_inv (abort_controller e c a) \<and> evolves a (abort_controller e c a)"
proof (cases "c \<in> set (fired a) \<or> \<not> exists_controller a c")
  case True
  with inv show ?thesis by (simp add: abort_controller_def evolves_refl)
next
  case False
  define b where "b = fold (\<lambda>i. with_upload i (abort e)) (attached a c) a"
  have ac: "abort_controller e c a = b\<lparr>fired := c # fired b\<rparr>"
    using False by (simp add: abort_controller_def b_def fold_with_upload_same)
  have ib: "api_inv b" and eb: "evolves a b"
    using fold_abort_ok [OF inv, of e "attached a c"] by (simp_all add: b_def)
  have al: "allocated b = allocated a"
    by (simp add: b_def fold_with_upload_same)
  have ex: "exists_controller b c"
    using False exists_controller_cong [OF al] by simp
  have ab: "aborted v" if "objects b i = Some v" "controller v = c" for i v
  proof -
    from that(1) ib have "i < allocated b"
      unfolding api_inv_def by auto
    with al inv obtain u where u: "objects a i = Some u"
      unfolding api_inv_def by auto
    from evolves_object [OF eb u] that have "controller u = c" by auto
    with u inv have "i \<in> set (attached a c)"
      by (simp add: attached_iff)
    from fold_abort_aborted [OF inv this] that(1) show ?thesis
      by (simp add: b_def)
  qed
  have "api_inv (b\<lparr>fired := c # fired b\<rparr>)"
    by (rule api_inv_fired [OF ib ex ab])
  moreover have "evolves a (b\<lparr>fired := c # fired b\<rparr>)"
    using eb by (simp add: evolves_def)
  ultimately show ?thesis
    by (simp add: ac)
qed


lemma find_eq: "find (\<lambda>i. i = p) xs = (if p \<in> set xs then Some p else None)"
  by (induction xs) auto

lemma cancel_unregistered: "q \<notin> set (uploads a) \<Longrightarrow> cancelUpload e q a = (a, False)"
  by (simp add: cancelUpload_def find_eq)

lemma cancelUpload_ok:
  "api_inv a \<Longrightarrow> api_inv (fst (cancelUpload e p a)) \<and> evolves a (fst (cancelUpload e p a))"
  by (auto simp: cancelUpload_def find_eq abort_controller_ok evolves_refl split: option.splits)

lemma end_of_task_ok: "api_inv a \<Longrightarrow> api_inv (end_of_task a) \<and> evolves a (end_of_task a)"
  unfolding end_of_task_def api_microtasks_def by (rule fold_microtasks_ok)

lemma api_microtasks_ok:
  "api_inv a \<Longrightarrow> api_inv (api_microtasks i a) \<and> evolves a (api_microtasks i a)"
  using fold_microtasks_ok [of a "[i]"] by (simp add: api_microtasks_def)

lemma api_uploadContent_ok:
  assumes inv: "api_inv a"
  shows "api_inv (fst (api_uploadContent e payload o' a))
    \<and> evolves a (fst (api_uploadContent e payload o' a))"
proof -
  define i where "i = allocated a"
  define c where "c = uploadContent e payload (resolve_opts a o') i (uploads a)"
  define a' where "a' = a\<lparr>uploads := fst c, objects := (objects a)(i \<mapsto> snd c), allocated := Suc i\<rparr>"
  have w: "fst (api_uploadContent e payload o' a) = a'"
    by (simp add: api_uploadContent_def Let_def case_prod_beta a'_def c_def i_def)
  have srt: "sorted (uploads a)" and dst: "distinct (uploads a)"
    and reg: "\<And>j. (j \<in> set (uploads a)) = pending a j"
    and alloc: "\<And>j. (j < allocated a) = (objects a j \<noteq> None)"
    and obj: "\<And>j v. objects a j = Some v \<Longrightarrow>
        uid v = j \<and> (promise v = None \<or> promise v = deferred v)
        \<and> (controller v \<in> set (fired a) \<longrightarrow> aborted v) \<and> exists_controller a (controller v)"
    and frd: "\<And>k. k \<in> set (fired a) \<Longrightarrow> exists_controller a k"
    using inv unfolding api_inv_def by blast+
  have none: "objects a i = None"
    using alloc [of i] by (simp add: i_def)
  have below: "j < i" if "j \<in> set (uploads a)" for j
    using that reg [of j] alloc [of j] by (auto simp: pending_iff i_def)
  have c: "fst c = uploads a @ [i]" "uid (snd c) = i" "promise (snd c) = None"
    "deferred (snd c) = None"
    "controller (snd c) = fst (abortController_of i (resolve_opts a o'))"
    "aborted (snd c) = snd (abortController_of i (resolve_opts a o'))"
    using upload_inv_start [of "uploads a" i e payload "resolve_opts a o'"]
    by (auto simp: c_def registry_start upload_inv_def pending_start aborted_start
        uploadContent_def new_upload_def Let_def fold_emit split: option.splits)
  have ua: "uploads a' = uploads a @ [i]" and oa: "objects a' = (objects a)(i \<mapsto> snd c)"
    and fa: "fired a' = fired a" and al: "allocated a' = Suc i"
    by (simp_all add: a'_def c)
  have ec: "exists_controller a k \<Longrightarrow> exists_controller a' k" for k
    by (cases k) (simp_all add: al i_def)
  have p': "pending a' j = (if j = i then True else pending a j)" for j
    by (simp add: oa pending_def c)
  have ctl: "(controller (snd c) \<in> set (fired a) \<longrightarrow> aborted (snd c))
      \<and> exists_controller a' (controller (snd c))"
  proof (cases "abortController (resolve_opts a o')")
    case None
    then have "controller (snd c) = Own i" "\<not> aborted (snd c)"
      by (simp_all add: c abortController_of_def)
    moreover have "Own i \<notin> set (fired a)"
      using frd [of "Own i"] by (auto simp: i_def)
    ultimately show ?thesis by (simp add: al)
  next
    case (Some cb)
    then have "exists_controller a (fst cb)" "snd cb = (fst cb \<in> set (fired a))"
      by (auto simp: resolve_opts_def split: option.splits if_splits)
    with Some ec show ?thesis
      by (simp add: c abortController_of_def)
  qed
  have "sorted (uploads a')" "distinct (uploads a')"
    using srt dst below by (auto simp: ua sorted_append dest: less_imp_le)
  moreover have "(j \<in> set (uploads a')) = pending a' j" for j
    using reg [of j] by (auto simp: ua p' dest: below)
  moreover have "(j < allocated a') = (objects a' j \<noteq> None)" for j
    using alloc [of j] by (auto simp: oa al i_def less_Suc_eq)
  moreover have "uid v = j \<and> (promise v = None \<or> promise v = deferred v)
        \<and> (controller v \<in> set (fired a') \<longrightarrow> aborted v) \<and> exists_controller a' (controller v)"
    if "objects a' j = Some v" for j v
  proof (cases "j = i")
    case True
    with that have "v = snd c" by (simp add: oa)
    with True c ctl show ?thesis
      by (simp add: fa)
  next
    case False
    with that have "objects a j = Some v" by (simp add: oa)
    from obj [OF this] ec show ?thesis
      by (simp add: fa)
  qed
  moreover have "exists_controller a' k" if "k \<in> set (fired a')" for k
    using that frd [of k] ec by (simp add: fa)
  ultimately have "api_inv a'"
    unfolding api_inv_def by blast
  moreover have "evolves a a'"
    unfolding evolves_def using none by (auto simp: oa al i_def)
  ultimately show ?thesis
    by (simp add: w)
qed

lemma deliver_ok:
  assumes inv: "api_inv a"
  shows "api_inv (deliver e i ev a) \<and> evolves a (deliver e i ev a)"
proof (cases "objects a i")
  case None
  with inv show ?thesis by (simp add: deliver_def evolves_refl)
next
  case (Some u)
  show ?thesis
  proof (cases "ev = Abort")
    case True
    from abort_controller_ok [OF inv, of e "controller u"]
    have 1: "api_inv (abort_controller e (controller u) a)"
      and 2: "evolves a (abort_controller e (controller u) a)"
      by simp_all
    from end_of_task_ok [OF 1] 2 Some True show ?thesis
      by (auto simp: deliver_def intro: evolves_trans)
  next
    case False
    have "api_inv (with_upload i (step e ev) a) \<and> evolves a (with_upload i (step e ev) a)"
      by (rule with_upload_ok [OF inv]) (rule tidy_handle_microtasks)
    with Some False show ?thesis
      by (simp add: deliver_def)
  qed
qed

lemma api_step_ok:
  assumes inv: "api_inv a"
  shows "api_inv (api_step e call a) \<and> evolves a (api_step e call a)"
proof (cases call)
  case (CallUploadContent payload o')
  with api_uploadContent_ok [OF inv] show ?thesis by simp
next
  case (CallCancelUpload p)
  from cancelUpload_ok [OF inv, of e p]
  have 1: "api_inv (fst (cancelUpload e p a))" and 2: "evolves a (fst (cancelUpload e p a))"
    by simp_all
  from end_of_task_ok [OF 1] 2 CallCancelUpload show ?thesis
    by (auto intro: evolves_trans)
next
  case (CallAbort c)
  from abort_controller_ok [OF inv, of e c]
  have 1: "api_inv (abort_controller e c a)" and 2: "evolves a (abort_controller e c a)"
    by simp_all
  from end_of_task_ok [OF 1] 2 CallAbort show ?thesis
    by (auto intro: evolves_trans)
next
  case (Event i ev)
  with deliver_ok [OF inv] show ?thesis by simp
qed

lemma api_run_ok:
  "api_inv a \<Longrightarrow> api_inv (api_run e calls a) \<and> evolves a (api_run e calls a)"
proof (induction calls arbitrary: a)
  case Nil
  then show ?case by (simp add: evolves_refl)
next
  case (Cons call calls)
  from api_step_ok [OF Cons.prems, of e call]
  have 1: "api_inv (api_step e call a)" and 2: "evolves a (api_step e call a)"
    by simp_all
  from Cons.IH [OF 1] 2 show ?case
    by (auto intro: evolves_trans)
qed

lemma api_inv_new: "api_inv new_api"
  by (simp add: api_inv_def new_api_def pending_def)

lemma unregistered_run:
  assumes inv: "api_inv a" and "p \<notin> set (uploads a)" and "p < allocated a"
  shows "p \<notin> set (uploads (api_run e calls a))"
proof -
  from inv assms(3) obtain u where u: "objects a p = Some u"
    unfolding api_inv_def by auto
  from inv assms(2) u have "deferred u \<noteq> None"
    unfolding api_inv_def by (auto simp: pending_iff)
  with evolves_object [of a "api_run e calls a" p u] api_run_ok [OF inv, of e calls] u
  have "\<not> pending (api_run e calls a) p"
    by (auto simp: pending_iff)
  with api_run_ok [OF inv, of e calls] show ?thesis
    unfolding api_inv_def by blast
qed

lemma settled_after_microtasks:
  assumes inv: "api_inv a" and "objects a p = Some v" and "deferred v = Some r"
  shows "settled_as (api_microtasks p a) p = Some r"
    and "p \<notin> set (uploads (api_microtasks p a))"
proof -
  from inv assms(2) have pv: "promise v = None \<or> promise v = deferred v"
    unfolding api_inv_def by blast
  have o: "objects (api_microtasks p a) p = Some (snd (microtasks (uploads a, v)))"
    using assms(2) by (simp add: api_microtasks_def with_upload_some del: microtasks.simps)
  with pv assms(3) show "settled_as (api_microtasks p a) p = Some r"
    by (auto simp: settled_as_def microtasks_fields simp del: microtasks.simps)
  from o assms(3) have "\<not> pending (api_microtasks p a) p"
    by (simp add: pending_def microtasks_fields del: microtasks.simps)
  with api_microtasks_ok [OF inv, of p] show "p \<notin> set (uploads (api_microtasks p a))"
    unfolding api_inv_def by blast
qed

lemma drained_with_upload_step:
  assumes inv: "api_inv a" and dr: "drained a"
  shows "drained (with_upload i (step e ev) a)"
proof (cases "objects a i")
  case None
  with dr show ?thesis by (simp add: with_upload_none)
next
  case (Some u)
  with inv have "promise u = None \<or> promise u = deferred u"
    unfolding api_inv_def by blast
  from promise_after_step [OF this, of e ev "uploads a"] dr Some show ?thesis
    by (auto simp: drained_def with_upload_some)
qed

lemma drained_fold_microtasks:
  "api_inv a \<Longrightarrow> objects (fold (\<lambda>i. with_upload i microtasks) js a) j = Some v \<Longrightarrow>
   j \<in> set js \<or> (\<forall>u. objects a j = Some u \<longrightarrow> promise u = deferred u) \<Longrightarrow>
   promise v = deferred v"
proof (induction js arbitrary: a)
  case Nil
  then show ?case by simp
next
  case (Cons i js)
  let ?a' = "with_upload i microtasks a"
  have inv': "api_inv ?a'"
    using fold_microtasks_ok [OF Cons.prems(1), of "[i]"] by simp
  have pu: "promise u = None \<or> promise u = deferred u" if "objects a i = Some u" for u
    using Cons.prems(1) that unfolding api_inv_def by blast
  have "j \<in> set js \<or> (\<forall>u. objects ?a' j = Some u \<longrightarrow> promise u = deferred u)"
  proof (cases "j = i")
    case True
    have "promise w = deferred w" if "objects ?a' i = Some w" for w
    proof (cases "objects a i")
      case None
      with that show ?thesis by (simp add: with_upload_none)
    next
      case (Some u)
      with that have "w = snd (microtasks (uploads a, u))"
        by (simp add: with_upload_some del: microtasks.simps)
      with pu [OF Some] show ?thesis
        by (auto simp: microtasks_fields simp del: microtasks.simps)
    qed
    with True show ?thesis by blast
  next
    case False
    with Cons.prems(3) show ?thesis
      by (auto simp: with_upload_other)
  qed
  from Cons.IH [OF inv' _ this] Cons.prems(2) show ?case
    by simp
qed

lemma end_of_task_eq: "end_of_task a = fold (\<lambda>i. with_upload i microtasks) [0..<allocated a] a"
  unfolding end_of_task_def api_microtasks_def by (rule refl)

lemma drained_end_of_task:
  assumes inv: "api_inv a"
  shows "drained (end_of_task a)"
proof -
  have "promise v = deferred v" if "objects (end_of_task a) j = Some v" for j v
  proof -
    from end_of_task_ok [OF inv] that have "j < allocated (end_of_task a)"
      unfolding api_inv_def by auto
    then have "j \<in> set [0..<allocated a]"
      by (simp add: end_of_task_eq fold_with_upload_same)
    with drained_fold_microtasks [OF inv, of "[0..<allocated a]" j v] that show ?thesis
      by (simp add: end_of_task_eq)
  qed
  then show ?thesis
    unfolding drained_def by blast
qed

lemma drained_uploadContent:
  "drained a \<Longrightarrow> drained (fst (api_uploadContent e payload o' a))"
  using pending_start [of e payload "resolve_opts a o'" "allocated a" "uploads a"]
    upload_inv_start [of "uploads a" "allocated a" e payload "resolve_opts a o'"]
  by (auto simp: drained_def api_uploadContent_def Let_def case_prod_beta upload_inv_def)

lemma api_step_drained:
  assumes inv: "api_inv a" and dr: "drained a"
  shows "drained (api_step e call a)"
proof (cases call)
  case (CallUploadContent payload o')
  with dr show ?thesis by (simp add: drained_uploadContent)
next
  case (CallCancelUpload p)
  with cancelUpload_ok [OF inv, of e p] show ?thesis
    by (simp add: drained_end_of_task)
next
  case (CallAbort c)
  with abort_controller_ok [OF inv, of e c] show ?thesis
    by (simp add: drained_end_of_task)
next
  case (Event i ev)
  show ?thesis
  proof (cases "objects a i")
    case None
    with Event dr show ?thesis by (simp add: deliver_def)
  next
    case (Some u)
    with Event abort_controller_ok [OF inv, of e "controller u"]
      drained_with_upload_step [OF inv dr, of i e ev]
    show ?thesis
      by (simp add: deliver_def drained_end_of_task)
  qed
qed

lemma api_run_drained:
  "api_inv a \<Longrightarrow> drained a \<Longrightarrow> drained (api_run e calls a)"
proof (induction calls arbitrary: a)
  case Nil
  then show ?case by simp
next
  case (Cons call calls)
  from api_step_ok [OF Cons.prems(1), of e call] api_step_drained [OF Cons.prems, of e call]
    Cons.IH
  show ?case by simp
qed

lemma drained_new: "drained new_api"
  by (simp add: drained_def new_api_def)

lemma signals_with_upload:
  assumes "signals_inv a"
    and "\<And>reg u. controller (snd (f (reg, u))) = controller u
            \<and> (aborted (snd (f (reg, u))) \<longrightarrow> aborted u)"
  shows "signals_inv (with_upload i f a)"
proof (cases "objects a i")
  case None
  with assms(1) show ?thesis by (simp add: with_upload_none)
next
  case (Some u)
  with assms show ?thesis
    unfolding signals_inv_def by (auto simp: with_upload_some)
qed

lemma signals_fold_with_upload:
  assumes "\<And>reg u. controller (snd (f (reg, u))) = controller u
            \<and> (aborted (snd (f (reg, u))) \<longrightarrow> aborted u)"
  shows "signals_inv a \<Longrightarrow> signals_inv (fold (\<lambda>i. with_upload i f) js a)"
  by (induction js arbitrary: a) (simp_all add: signals_with_upload assms)

lemma signals_end_of_task: "signals_inv a \<Longrightarrow> signals_inv (end_of_task a)"
  unfolding end_of_task_eq
  by (rule signals_fold_with_upload) (simp_all add: microtasks_fields del: microtasks.simps)

lemma signals_step:
  "ev \<noteq> Abort \<Longrightarrow> signals_inv a \<Longrightarrow> signals_inv (with_upload i (step e ev) a)"
  by (rule signals_with_upload)
     (simp_all add: step_def microtasks_fields controller_handle aborted_handle_eq
        del: microtasks.simps)

lemma signals_abort_controller:
  assumes inv: "api_inv a" and sg: "signals_inv a"
  shows "signals_inv (abort_controller e c a)"
proof (cases "c \<in> set (fired a) \<or> \<not> exists_controller a c")
  case True
  with sg show ?thesis by (simp add: abort_controller_def)
next
  case False
  define b where "b = fold (\<lambda>i. with_upload i (abort e)) (attached a c) a"
  have ac: "abort_controller e c a = b\<lparr>fired := c # fired a\<rparr>"
    using False by (simp add: abort_controller_def b_def)
  have eb: "evolves a b"
    using fold_abort_ok [OF inv, of e "attached a c"] by (simp add: b_def)
  have "controller v \<in> set (c # fired a)" if "objects b i = Some v" "aborted v" for i v
  proof (cases "i \<in> set (attached a c)")
    case True
    with inv obtain u where u: "objects a i = Some u" "controller u = c"
      by (auto simp: attached_iff)
    from evolves_object [OF eb u(1)] that(1) u(2) show ?thesis by auto
  next
    case False
    with that(1) have "objects a i = Some v"
      by (simp add: b_def fold_with_upload_other)
    with sg that(2) show ?thesis
      unfolding signals_inv_def by auto
  qed
  then show ?thesis
    unfolding signals_inv_def ac by simp
qed

lemma signals_uploadContent:
  assumes sg: "signals_inv a"
  shows "signals_inv (fst (api_uploadContent e payload o' a))"
proof -
  define c where "c = uploadContent e payload (resolve_opts a o') (allocated a) (uploads a)"
  have c: "controller (snd c) = fst (abortController_of (allocated a) (resolve_opts a o'))"
    "aborted (snd c) = snd (abortController_of (allocated a) (resolve_opts a o'))"
    by (auto simp: c_def uploadContent_def new_upload_def Let_def fold_emit split: option.splits)
  have "aborted (snd c) \<longrightarrow> controller (snd c) \<in> set (fired a)"
    unfolding c by (auto simp: abortController_of_def resolve_opts_def split: option.splits)
  with sg show ?thesis
    unfolding signals_inv_def
    by (auto simp: api_uploadContent_def Let_def case_prod_beta c_def)
qed

lemma api_step_signals:
  assumes inv: "api_inv a" and sg: "signals_inv a"
  shows "signals_inv (api_step e call a)"
proof (cases call)
  case (CallUploadContent payload o')
  with sg show ?thesis by (simp add: signals_uploadContent)
next
  case (CallCancelUpload p)
  have "signals_inv (fst (cancelUpload e p a))"
    using sg signals_abort_controller [OF inv sg]
    by (auto simp: cancelUpload_def find_eq split: option.splits)
  with CallCancelUpload show ?thesis
    by (simp add: signals_end_of_task)
next
  case (CallAbort c)
  with signals_abort_controller [OF inv sg, of e c] show ?thesis
    by (simp add: signals_end_of_task)
next
  case (Event i ev)
  show ?thesis
  proof (cases "objects a i")
    case None
    with Event sg show ?thesis by (simp add: deliver_def)
  next
    case (Some u)
    with Event signals_abort_controller [OF inv sg, of e "controller u"]
      signals_step [OF _ sg, of ev i e]
    show ?thesis
      by (auto simp: deliver_def signals_end_of_task)
  qed
qed

lemma api_run_signals:
  "api_inv a \<Longrightarrow> signals_inv a \<Longrightarrow> signals_inv (api_run e calls a)"
proof (induction calls arbitrary: a)
  case Nil
  then show ?case by simp
next
  case (Cons call calls)
  from api_step_ok [OF Cons.prems(1), of e call] api_step_signals [OF Cons.prems, of e call]
    Cons.IH
  show ?case by simp
qed

lemma signals_new: "signals_inv new_api"
  by (simp add: signals_inv_def new_api_def)

lemma pending_fold_with_upload:
  assumes "\<And>reg u. deferred (snd (f (reg, u))) = deferred u"
  shows "pending (fold (\<lambda>i. with_upload i f) js a) q = pending a q"
proof (induction js arbitrary: a)
  case Nil
  show ?case by simp
next
  case (Cons j js)
  have "pending (with_upload j f a) q = pending a q"
    using assms by (cases "objects a j") (auto simp: with_upload_none with_upload_some pending_def)
  with Cons show ?case by simp
qed

lemma pending_end_of_task: "pending (end_of_task a) q = pending a q"
  unfolding end_of_task_eq
  by (rule pending_fold_with_upload) (simp add: microtasks_fields del: microtasks.simps)

lemma registry_is_pending:
  assumes inv: "api_inv a"
  shows "uploads a = filter (pending a) [0..<allocated a]"
proof (rule sorted_distinct_set_unique)
  show "sorted (uploads a)" "distinct (uploads a)"
    using inv unfolding api_inv_def by blast+
  show "sorted (filter (pending a) [0..<allocated a])"
    by (simp add: sorted_wrt_filter)
  show "distinct (filter (pending a) [0..<allocated a])"
    by simp
  have "(i \<in> set (uploads a)) = (i < allocated a \<and> pending a i)" for i
    using inv unfolding api_inv_def by (auto simp: pending_iff)
  then show "set (uploads a) = set (filter (pending a) [0..<allocated a])"
    by auto
qed

lemma pending_settled:
  assumes "api_inv a" and "drained a" and "q < allocated a"
  shows "pending a q = (settled_as a q = None)"
proof -
  from assms(1,3) obtain u where "objects a q = Some u"
    unfolding api_inv_def by auto
  with assms(2) show ?thesis
    unfolding drained_def by (auto simp: pending_def settled_as_def)
qed

lemma registry_is_unsettled:
  assumes "api_inv a" and "drained a"
  shows "uploads a = filter (\<lambda>q. settled_as a q = None) [0..<allocated a]"
  unfolding registry_is_pending [OF assms(1)]
  by (rule filter_cong [OF refl]) (simp add: pending_settled [OF assms])

section \<open>cancelUpload\<close>

lemma cancel_in_flight:
  assumes inv: "api_inv a" and pend: "pending a p" and sig: "\<not> signal_aborted a p"
  shows "snd (cancelUpload e p a)
    \<and> p \<notin> set (uploads (fst (cancelUpload e p a)))
    \<and> (\<exists>err. error_name err = ''AbortError''
          \<and> settled_as (api_microtasks p (fst (cancelUpload e p a))) p = Some (Rejected err))
    \<and> p \<notin> set (uploads (api_microtasks p (fst (cancelUpload e p a))))
    \<and> api_inv (api_microtasks p (fst (cancelUpload e p a)))
    \<and> allocated (api_microtasks p (fst (cancelUpload e p a))) = allocated a"
proof -
  from pend obtain u where obj: "objects a p = Some u" and d: "deferred u = None"
    by (auto simp: pending_iff)
  from sig obj have na: "\<not> aborted u"
    by (simp add: signal_aborted_def)
  define c where "c = controller u"
  from inv obj na pend have reg: "p \<in> set (uploads a)" and nf: "c \<notin> set (fired a)"
    and ex: "exists_controller a c"
    unfolding api_inv_def c_def by blast+
  define b where "b = fold (\<lambda>i. with_upload i (abort e)) (attached a c) a"
  define a1 where "a1 = b\<lparr>fired := c # fired a\<rparr>"
  have ac: "abort_controller e c a = a1"
    using nf ex by (simp add: abort_controller_def b_def a1_def)
  have cu: "cancelUpload e p a = (a1, True)"
    using reg obj ac by (simp add: cancelUpload_def find_eq c_def)
  have i1: "api_inv a1"
    using abort_controller_ok [OF inv, of e c] by (simp add: ac)
  have "p \<in> set (attached a c)"
    using obj inv by (simp add: attached_iff c_def)
  from fold_abort_settles [OF inv this obj na, of e] d
  obtain v err where v: "objects b p = Some v" "deferred v = Some (Rejected err)"
    "error_name err = ''AbortError''"
    by (auto simp: b_def)
  have o1: "objects a1 p = Some v"
    using v(1) by (simp add: a1_def)
  with v(2) have "\<not> pending a1 p"
    by (simp add: pending_def)
  with i1 have gone: "p \<notin> set (uploads a1)"
    unfolding api_inv_def by blast
  have al: "allocated (api_microtasks p a1) = allocated a"
    by (simp add: api_microtasks_def with_upload_same a1_def b_def fold_with_upload_same)
  from settled_after_microtasks [OF i1 o1 v(2)] api_microtasks_ok [OF i1, of p] gone v(3) al
  show ?thesis
    by (auto simp: cu)
qed

text \<open>
  C4, as the code has it. In every state the API object reaches, for every upload in
  flight (its \<^verbatim>\<open>defer\<close> is pending) whose abort signal has not fired yet:
  \<^verbatim>\<open>cancelUpload\<close> with its promise returns true and removes the handle from the registry
  at once; the promise is rejected with an error named AbortError (as seen once the
  microtasks have run); a later call with the same promise, at once or after any further
  history of the object, returns false; and a call with a promise that belongs to no
  registered handle returns false and changes nothing.
\<close>

theorem cancelUpload_in_flight:
  assumes "pending (api_run e calls new_api) p"
    and "\<not> signal_aborted (api_run e calls new_api) p"
  shows "snd (cancelUpload e p (api_run e calls new_api))
    \<and> p \<notin> set (getCurrentUploads (fst (cancelUpload e p (api_run e calls new_api))))
    \<and> (\<exists>err. error_name err = ''AbortError''
          \<and> settled_as (api_microtasks p (fst (cancelUpload e p (api_run e calls new_api)))) p
              = Some (Rejected err))
    \<and> cancelUpload e p (fst (cancelUpload e p (api_run e calls new_api)))
        = (fst (cancelUpload e p (api_run e calls new_api)), False)
    \<and> \<not> snd (cancelUpload e p
              (api_run e later (api_microtasks p (fst (cancelUpload e p (api_run e calls new_api))))))
    \<and> (q \<notin> set (getCurrentUploads (api_run e calls new_api)) \<longrightarrow>
         cancelUpload e q (api_run e calls new_api) = (api_run e calls new_api, False))"
proof -
  let ?a = "api_run e calls new_api"
  let ?a1 = "fst (cancelUpload e p ?a)"
  have inv: "api_inv ?a"
    using api_run_ok [OF api_inv_new, of e calls] by simp
  note c = cancel_in_flight [OF inv assms, of e]
  from assms(1) inv have alloc: "p < allocated ?a"
    unfolding api_inv_def by (auto simp: pending_iff)
  from c alloc have "p \<notin> set (uploads (api_run e later (api_microtasks p ?a1)))"
    by (simp add: unregistered_run)
  then have "\<not> snd (cancelUpload e p (api_run e later (api_microtasks p ?a1)))"
    by (simp add: cancel_unregistered)
  with c show ?thesis
    by (simp add: getCurrentUploads_def cancel_unregistered)
qed

text \<open>The definitions a history of the API object on the sample inputs unfolds.\<close>

lemmas api_samples = new_api_def api_uploadContent_def cancelUpload_def api_microtasks_def
  deliver_def pending_def signal_aborted_def settled_as_def getCurrentUploads_def abort_def
  abort_listener_xhr_def resolve_opts_def with_upload_def abort_controller_def attached_def
  end_of_task_def

theorem cancelUpload_in_flight_witness:
  "pending (api_run (sample_env (Some Standard))
      [CallUploadContent sample_file no_opts, Event 0 (UploadProgress 1 3)] new_api) 0
   \<and> \<not> signal_aborted (api_run (sample_env (Some Standard))
      [CallUploadContent sample_file no_opts, Event 0 (UploadProgress 1 3)] new_api) 0
   \<and> snd (cancelUpload (sample_env (Some Standard)) 0 (api_run (sample_env (Some Standard))
      [CallUploadContent sample_file no_opts, Event 0 (UploadProgress 1 3)] new_api))
   \<and> settled_as (api_microtasks 0 (fst (cancelUpload (sample_env (Some Standard)) 0
        (api_run (sample_env (Some Standard))
           [CallUploadContent sample_file no_opts, Event 0 (UploadProgress 1 3)] new_api)))) 0
       = Some (Rejected (DOMException [] ''AbortError''))
   \<and> \<not> snd (cancelUpload (sample_env (Some Standard)) 0
        (api_run (sample_env (Some Standard)) [CallUploadContent sample_file no_opts]
          (api_microtasks 0 (fst (cancelUpload (sample_env (Some Standard)) 0
            (api_run (sample_env (Some Standard))
               [CallUploadContent sample_file no_opts, Event 0 (UploadProgress 1 3)] new_api))))))"
  using cancelUpload_in_flight [of "sample_env (Some Standard)"
      "[CallUploadContent sample_file no_opts, Event 0 (UploadProgress 1 3)]" 0
      "[CallUploadContent sample_file no_opts]" 7]
  by (simp add: api_samples samples removeElement_eq)

text \<open>
  C4 as stated covers every upload in flight. An upload started with a controller whose
  signal had already fired (\<^verbatim>\<open>abort()\<close> was called on it before the upload was started) is
  in flight, yet \<^verbatim>\<open>cancelUpload\<close> with its promise returns true and does nothing: the
  promise stays pending, the handle stays in the registry, and a later call returns true
  again.
\<close>

theorem cancelUpload_aborted_signal_counterexample:
  "pending (fst (api_uploadContent (sample_env (Some Standard)) sample_file
        (no_opts\<lparr>abortController := Some (Callers 0, True)\<rparr>)
        (api_run (sample_env (Some Standard)) [CallAbort (Callers 0)] new_api))) 0
   \<and> snd (cancelUpload (sample_env (Some Standard)) 0
        (fst (api_uploadContent (sample_env (Some Standard)) sample_file
          (no_opts\<lparr>abortController := Some (Callers 0, True)\<rparr>)
          (api_run (sample_env (Some Standard)) [CallAbort (Callers 0)] new_api))))
   \<and> settled_as (api_microtasks 0 (fst (cancelUpload (sample_env (Some Standard)) 0
        (fst (api_uploadContent (sample_env (Some Standard)) sample_file
          (no_opts\<lparr>abortController := Some (Callers 0, True)\<rparr>)
          (api_run (sample_env (Some Standard)) [CallAbort (Callers 0)] new_api)))))) 0 = None
   \<and> getCurrentUploads (api_microtasks 0 (fst (cancelUpload (sample_env (Some Standard)) 0
        (fst (api_uploadContent (sample_env (Some Standard)) sample_file
          (no_opts\<lparr>abortController := Some (Callers 0, True)\<rparr>)
          (api_run (sample_env (Some Standard)) [CallAbort (Callers 0)] new_api)))))) = [0]
   \<and> snd (cancelUpload (sample_env (Some Standard)) 0
        (api_microtasks 0 (fst (cancelUpload (sample_env (Some Standard)) 0
          (fst (api_uploadContent (sample_env (Some Standard)) sample_file
            (no_opts\<lparr>abortController := Some (Callers 0, True)\<rparr>)
            (api_run (sample_env (Some Standard)) [CallAbort (Callers 0)] new_api)))))))"
  by (simp add: api_samples samples removeElement_eq)

section \<open>The registry of the API object\<close>

lemma trigger_event_removes:
  assumes inv: "api_inv a" and obj: "objects a p = Some u" and tr: "trigger ev u"
    and ne: "ev \<noteq> Abort"
  shows "uploads (deliver e p ev a) = remove1 p (uploads a)"
    and "settled_as (deliver e p ev a) p \<noteq> None"
proof -
  define c where "c = step e ev (uploads a, u)"
  have d: "deliver e p ev a = a\<lparr>uploads := fst c, objects := (objects a)(p \<mapsto> snd c)\<rparr>"
    using obj ne by (simp add: deliver_def with_upload_some c_def)
  have u: "uid u = p" "promise u = None \<or> promise u = deferred u" "distinct (uploads a)"
    using inv obj unfolding api_inv_def by blast+
  have "deferred u \<noteq> None \<longrightarrow> uid u \<notin> set (uploads a)"
    using inv obj u(1) unfolding api_inv_def by (auto simp: pending_iff)
  from tidy_handle_microtasks [OF u(3) u(2) this, of e ev]
  have t: "fst c = (if deferred (snd c) = None then uploads a else remove1 p (uploads a))"
    by (simp add: tidy_def c_def u(1))
  have s: "deferred (snd c) \<noteq> None"
    using trigger_handle [of ev "(uploads a, u)" e] tr
    by (simp add: c_def step_def microtasks_fields del: microtasks.simps)
  have "promise (snd c) = deferred (snd c)"
    using promise_after_step [OF u(2), of e ev "uploads a"] by (simp add: c_def)
  with s t show "uploads (deliver e p ev a) = remove1 p (uploads a)"
    and "settled_as (deliver e p ev a) p \<noteq> None"
    by (auto simp: d settled_as_def)
qed

lemma abort_event_removes:
  assumes inv: "api_inv a" and sg: "signals_inv a" and obj: "objects a p = Some u"
    and na: "\<not> aborted u"
  shows "uploads (deliver e p Abort a)
           = filter (\<lambda>q. q \<notin> set (attached a (controller u))) (uploads a)"
    and "settled_as (deliver e p Abort a) p \<noteq> None"
proof -
  define c where "c = controller u"
  define b where "b = fold (\<lambda>i. with_upload i (abort e)) (attached a c) a"
  define a1 where "a1 = abort_controller e c a"
  define a2 where "a2 = end_of_task a1"
  from inv obj na have nf: "c \<notin> set (fired a)" and ex: "exists_controller a c"
    unfolding api_inv_def c_def by blast+
  have ac: "a1 = b\<lparr>fired := c # fired a\<rparr>"
    using nf ex by (simp add: a1_def abort_controller_def b_def)
  have d: "deliver e p Abort a = a2"
    using obj by (simp add: deliver_def a2_def a1_def c_def)
  have i1: "api_inv a1"
    using abort_controller_ok [OF inv, of e c] by (simp add: a1_def)
  have i2: "api_inv a2" and d2: "drained a2"
    using end_of_task_ok [OF i1] drained_end_of_task [OF i1] by (simp_all add: a2_def)
  have al: "allocated a2 = allocated a"
    by (simp add: a2_def end_of_task_eq fold_with_upload_same ac b_def)
  have pb: "pending b q = (pending a q \<and> q \<notin> set (attached a c))" for q
  proof (cases "q \<in> set (attached a c)")
    case True
    with inv obtain w where w: "objects a q = Some w" "controller w = c"
      by (auto simp: attached_iff)
    with sg nf have "\<not> aborted w"
      unfolding signals_inv_def by auto
    from fold_abort_settles [OF inv True w(1) this, of e] True show ?thesis
      by (auto simp: b_def pending_iff)
  next
    case False
    then show ?thesis
      by (simp add: b_def pending_def fold_with_upload_other)
  qed
  have "pending a1 q = pending b q" for q
    by (simp add: ac pending_def)
  then have p2: "pending a2 q = (pending a q \<and> q \<notin> set (attached a c))" for q
    using pb [of q] by (simp add: a2_def pending_end_of_task)
  have "uploads a2 = filter (pending a2) [0..<allocated a]"
    using registry_is_pending [OF i2] by (simp add: al)
  also have "\<dots> = filter (\<lambda>q. q \<notin> set (attached a c)) (filter (pending a) [0..<allocated a])"
    by (simp add: p2 [abs_def])
  finally show "uploads (deliver e p Abort a)
           = filter (\<lambda>q. q \<notin> set (attached a (controller u))) (uploads a)"
    using registry_is_pending [OF inv] by (simp add: d c_def)
  have "p \<in> set (attached a c)"
    using inv obj by (simp add: attached_iff c_def)
  then have "\<not> pending a2 p"
    by (simp add: p2)
  moreover from inv obj have "p < allocated a2"
    unfolding api_inv_def al by auto
  ultimately show "settled_as (deliver e p Abort a) p \<noteq> None"
    using pending_settled [OF i2 d2] by (simp add: d)
qed

lemma resolve_opts_request:
  "queryParams payload (resolve_opts a o') = queryParams payload o'"
  "contentType payload (resolve_opts a o') = contentType payload o'"
  by (simp_all add: queryParams_def contentType_def resolve_opts_def includeFilename_of_def
      fileName_def)

lemma registry_since:
  assumes i0: "api_inv a0" and i2: "api_inv a2" and d2: "drained a2" and ev: "evolves a0 a2"
  shows "uploads a2 = filter (\<lambda>q. settled_as a2 q = None) (uploads a0 @ [allocated a0..<allocated a2])"
proof -
  have le: "allocated a0 \<le> allocated a2"
    using ev by (simp add: evolves_def)
  have imp: "pending a0 q" if "q < allocated a0" "pending a2 q" for q
  proof (rule ccontr)
    assume n: "\<not> pending a0 q"
    from i0 that(1) obtain u where u: "objects a0 q = Some u"
      unfolding api_inv_def by auto
    with n have "deferred u \<noteq> None"
      by (simp add: pending_def)
    with evolves_object [OF ev u] that(2) show False
      by (auto simp: pending_def)
  qed
  have "[0..<allocated a2] = [0..<allocated a0] @ [allocated a0..<allocated a2]"
    using le by (metis le_add_diff_inverse upt_add_eq_append zero_le)
  then have "uploads a2 = filter (pending a2) [0..<allocated a0]
      @ filter (pending a2) [allocated a0..<allocated a2]"
    using registry_is_pending [OF i2] by simp
  also have "filter (pending a2) [0..<allocated a0]
      = filter (pending a2) (filter (pending a0) [0..<allocated a0])"
    using imp by (auto intro: filter_cong)
  also have "\<dots> = filter (pending a2) (uploads a0)"
    using registry_is_pending [OF i0] by simp
  finally have "uploads a2 = filter (pending a2) (uploads a0 @ [allocated a0..<allocated a2])"
    by simp
  also have "\<dots> = filter (\<lambda>q. settled_as a2 q = None) (uploads a0 @ [allocated a0..<allocated a2])"
  proof (rule filter_cong [OF refl])
    fix q assume "q \<in> set (uploads a0 @ [allocated a0..<allocated a2])"
    moreover have "j < allocated a0" if "j \<in> set (uploads a0)" for j
    proof -
      from i0 have "(j \<in> set (uploads a0)) = pending a0 j"
        and "(j < allocated a0) = (objects a0 j \<noteq> None)"
        unfolding api_inv_def by blast+
      with that show ?thesis
        by (auto simp: pending_iff)
    qed
    ultimately have "q < allocated a2"
      using le by (auto dest: order.strict_trans2)
    then show "pending a2 q = (settled_as a2 q = None)"
      by (rule pending_settled [OF i2 d2])
  qed
  finally show ?thesis .
qed


lemma controller_start:
  "controller (snd (uploadContent e payload o' i reg)) = fst (abortController_of i o')"
  by (auto simp: uploadContent_def new_upload_def Let_def fold_emit split: option.splits)

text \<open>
  C2, as the code has it. Let \<^verbatim>\<open>uploadContent\<close> be called after any history \<open>calls\<close> of
  the API object, and let any history \<open>later\<close> follow the call: further uploads, events of
  any upload, calls of \<^verbatim>\<open>cancelUpload\<close> and of \<^verbatim>\<open>abort()\<close> on any controller, also one
  that several uploads share.

  \<^item> The call pushes the new upload \<open>p\<close>, a handle the registry does not hold yet, once, at
    the end of the registry, in the synchronous call: after it has handed the payload to
    the transport (\<^verbatim>\<open>xhr.send\<close>, \<^verbatim>\<open>authedRequest\<close>), and so before any event of the upload
    is handled. Nothing pushes it again.
  \<^item> At the end of every task the registry holds exactly the uploads whose promise is
    not settled, each once, in the order of their creation: those of the registry before
    the call that are still not settled, then \<open>p\<close> and the uploads started after it as far
    as they are not settled. So once \<open>p\<close> is settled, no upload has been started after it
    and none of the registry before the call has been settled, the registry is the one
    before the call.
  \<^item> Every trigger of \<open>p\<close> (success, remote error, connection error, timeout, abort)
    settles its promise and removes its handle. A trigger other than the abort signal
    removes the handle of \<open>p\<close> and no other; the abort signal removes the handles of all
    uploads of the controller of \<open>p\<close>, and no other.
\<close>

theorem registry_restored:
  "(let a0 = api_run e calls new_api;
        a1 = fst (started e calls payload o');
        p = snd (started e calls payload o');
        a2 = api_run e later a1;
        c = fst (abortController_of p (resolve_opts a0 o'))
    in getCurrentUploads a1 = getCurrentUploads a0 @ [p]
       \<and> p \<notin> set (getCurrentUploads a0)
       \<and> occurs_before
            (case XMLHttpRequest e of
               Some impl \<Rightarrow> XhrSend payload
             | None \<Rightarrow> AuthedRequest ''POST'' ''/upload'' (queryParams payload o') payload
                         [(''Content-Type'', contentType payload o')]
                         (abortController_of p (resolve_opts a0 o')))
            UploadsPush (trace_of a1 p)
       \<and> count_list (trace_of a2 p) UploadsPush = 1
       \<and> getCurrentUploads a2 = filter (\<lambda>q. settled_as a2 q = None) [0..<allocated a2]
       \<and> getCurrentUploads a2
           = filter (\<lambda>q. settled_as a2 q = None) (getCurrentUploads a0 @ [p..<allocated a2])
       \<and> (settled_as a2 p \<noteq> None \<and> allocated a2 = Suc p
            \<and> (\<forall>q \<in> set (getCurrentUploads a0). settled_as a2 q = None)
          \<longrightarrow> getCurrentUploads a2 = getCurrentUploads a0)
       \<and> (api_trigger a2 p ev \<longrightarrow>
            settled_as (api_step e (Event p ev) a2) p \<noteq> None
            \<and> p \<notin> set (getCurrentUploads (api_step e (Event p ev) a2))
            \<and> getCurrentUploads (api_step e (Event p ev) a2)
                = (if ev = Abort
                   then filter (\<lambda>q. q \<notin> set (attached a2 c)) (getCurrentUploads a2)
                   else remove1 p (getCurrentUploads a2))))"
proof -
  define a0 where "a0 = api_run e calls new_api"
  define a1 where "a1 = fst (started e calls payload o')"
  define p where "p = snd (started e calls payload o')"
  define a2 where "a2 = api_run e later a1"
  define c where "c = fst (abortController_of p (resolve_opts a0 o'))"
  define u where "u = snd (uploadContent e payload (resolve_opts a0 o') p (uploads a0))"
  have p: "p = allocated a0"
    by (simp add: p_def started_def api_uploadContent_def Let_def case_prod_beta a0_def)
  have a1: "a1 = fst (api_uploadContent e payload o' a0)"
    by (simp add: a1_def started_def a0_def)
  have o1: "uploads a1 = uploads a0 @ [p]" "objects a1 p = Some u" "allocated a1 = Suc p"
    by (simp_all add: a1 api_uploadContent_def Let_def case_prod_beta p u_def registry_start)
  have i0: "api_inv a0" and d0: "drained a0" and s0: "signals_inv a0"
    using api_run_ok [OF api_inv_new, of e calls] api_run_drained [OF api_inv_new drained_new, of e calls]
      api_run_signals [OF api_inv_new signals_new, of e calls]
    by (simp_all add: a0_def)
  have i1: "api_inv a1" and e01: "evolves a0 a1" and d1: "drained a1" and s1: "signals_inv a1"
    using api_uploadContent_ok [OF i0, where e = e and payload = payload and o' = o']
      drained_uploadContent [OF d0, where e = e and payload = payload and o' = o']
      signals_uploadContent [OF s0, where e = e and payload = payload and o' = o']
    by (simp_all add: a1)
  have i2: "api_inv a2" and e12: "evolves a1 a2" and d2: "drained a2" and s2: "signals_inv a2"
    using api_run_ok [OF i1, of e later] api_run_drained [OF i1 d1, of e later]
      api_run_signals [OF i1 s1, of e later]
    by (simp_all add: a2_def)
  have e02: "evolves a0 a2"
    using e01 e12 by (rule evolves_trans)
  have fresh: "p \<notin> set (uploads a0)"
  proof -
    from i0 have "(p \<in> set (uploads a0)) = pending a0 p"
      and "(p < allocated a0) = (objects a0 p \<noteq> None)"
      unfolding api_inv_def by blast+
    then show ?thesis by (auto simp: pending_iff p)
  qed
  have ob: "occurs_before
            (case XMLHttpRequest e of
               Some impl \<Rightarrow> XhrSend payload
             | None \<Rightarrow> AuthedRequest ''POST'' ''/upload'' (queryParams payload o') payload
                         [(''Content-Type'', contentType payload o')]
                         (abortController_of p (resolve_opts a0 o')))
            UploadsPush (trace_of a1 p)"
    using send_before_push [where e = e and payload = payload and o' = "resolve_opts a0 o'"
        and i = p and reg = "uploads a0", unfolded resolve_opts_request]
    by (simp add: trace_of_def o1 u_def)
  from evolves_object [OF e12 o1(2)] obtain v where v: "objects a2 p = Some v"
    "controller v = controller u"
    "count_list (trace v) UploadsPush = count_list (trace u) UploadsPush"
    by auto
  have cv: "controller v = c"
    by (simp add: v(2) u_def controller_start c_def)
  have cnt: "count_list (trace_of a2 p) UploadsPush = 1"
    by (simp add: trace_of_def v u_def pushes_start)
  have shape: "uploads a2 = filter (\<lambda>q. settled_as a2 q = None) [0..<allocated a2]"
    by (rule registry_is_unsettled [OF i2 d2])
  have since: "uploads a2 = filter (\<lambda>q. settled_as a2 q = None) (uploads a0 @ [p..<allocated a2])"
    using registry_since [OF i0 i2 d2 e02] by (simp add: p)
  have restored: "uploads a2 = uploads a0"
    if "settled_as a2 p \<noteq> None" "allocated a2 = Suc p"
      "\<forall>q \<in> set (uploads a0). settled_as a2 q = None"
    using that by (simp add: since)
  have trig: "settled_as (api_step e (Event p ev) a2) p \<noteq> None
      \<and> p \<notin> set (uploads (api_step e (Event p ev) a2))
      \<and> uploads (api_step e (Event p ev) a2)
          = (if ev = Abort then filter (\<lambda>q. q \<notin> set (attached a2 c)) (uploads a2)
             else remove1 p (uploads a2))"
    if "api_trigger a2 p ev"
  proof (cases "ev = Abort")
    case True
    with that v(1) have "\<not> aborted v"
      by (simp add: api_trigger_def)
    from abort_event_removes [OF i2 s2 v(1) this, of e] True v(1) i2 show ?thesis
      by (simp add: cv attached_iff)
  next
    case False
    from that v(1) have "trigger ev v"
      by (simp add: api_trigger_def)
    from trigger_event_removes [OF i2 v(1) this False, of e] False i2 show ?thesis
      by (simp add: api_inv_def)
  qed
  from o1(1) fresh ob cnt shape since restored trig
  have "getCurrentUploads a1 = getCurrentUploads a0 @ [p]
       \<and> p \<notin> set (getCurrentUploads a0)
       \<and> occurs_before
            (case XMLHttpRequest e of
               Some impl \<Rightarrow> XhrSend payload
             | None \<Rightarrow> AuthedRequest ''POST'' ''/upload'' (queryParams payload o') payload
                         [(''Content-Type'', contentType payload o')]
                         (abortController_of p (resolve_opts a0 o')))
            UploadsPush (trace_of a1 p)
       \<and> count_list (trace_of a2 p) UploadsPush = 1
       \<and> getCurrentUploads a2 = filter (\<lambda>q. settled_as a2 q = None) [0..<allocated a2]
       \<and> getCurrentUploads a2
           = filter (\<lambda>q. settled_as a2 q = None) (getCurrentUploads a0 @ [p..<allocated a2])
       \<and> (settled_as a2 p \<noteq> None \<and> allocated a2 = Suc p
            \<and> (\<forall>q \<in> set (getCurrentUploads a0). settled_as a2 q = None)
          \<longrightarrow> getCurrentUploads a2 = getCurrentUploads a0)
       \<and> (api_trigger a2 p ev \<longrightarrow>
            settled_as (api_step e (Event p ev) a2) p \<noteq> None
            \<and> p \<notin> set (getCurrentUploads (api_step e (Event p ev) a2))
            \<and> getCurrentUploads (api_step e (Event p ev) a2)
                = (if ev = Abort
                   then filter (\<lambda>q. q \<notin> set (attached a2 c)) (getCurrentUploads a2)
                   else remove1 p (getCurrentUploads a2)))"
    unfolding getCurrentUploads_def by blast
  then show ?thesis
    unfolding Let_def a0_def a1_def p_def a2_def c_def .
qed

theorem registry_restored_witness:
  "getCurrentUploads (api_run (sample_env (Some Standard)) [CallUploadContent sample_file no_opts]
      new_api) = [0]
   \<and> snd (started (sample_env (Some Standard)) [CallUploadContent sample_file no_opts]
            sample_file no_opts) = 1
   \<and> getCurrentUploads (fst (started (sample_env (Some Standard))
        [CallUploadContent sample_file no_opts] sample_file no_opts)) = [0, 1]
   \<and> settled_as (api_run (sample_env (Some Standard)) [Event 1 done_ok]
        (fst (started (sample_env (Some Standard))
           [CallUploadContent sample_file no_opts] sample_file no_opts))) 1
       = Some (Resolved (JObj []))
   \<and> getCurrentUploads (api_run (sample_env (Some Standard)) [Event 1 done_ok]
        (fst (started (sample_env (Some Standard))
           [CallUploadContent sample_file no_opts] sample_file no_opts))) = [0]
   \<and> getCurrentUploads (api_run (sample_env (Some Standard))
        [CallUploadContent sample_file no_opts, Event 0 done_ok]
        (fst (started (sample_env (Some Standard))
           [CallUploadContent sample_file no_opts] sample_file no_opts))) = [1, 2]
   \<and> api_trigger (api_run (sample_env (Some Standard))
        [CallUploadContent sample_file no_opts, Event 0 done_ok]
        (fst (started (sample_env (Some Standard))
           [CallUploadContent sample_file no_opts] sample_file no_opts))) 1 done_ok
   \<and> getCurrentUploads (api_step (sample_env (Some Standard)) (Event 1 done_ok)
        (api_run (sample_env (Some Standard))
          [CallUploadContent sample_file no_opts, Event 0 done_ok]
          (fst (started (sample_env (Some Standard))
             [CallUploadContent sample_file no_opts] sample_file no_opts)))) = [2]
   \<and> getCurrentUploads (fst (started (sample_env (Some Standard))
        [CallUploadContent sample_file shared_opts] sample_file shared_opts)) = [0, 1]
   \<and> api_trigger (fst (started (sample_env (Some Standard))
        [CallUploadContent sample_file shared_opts] sample_file shared_opts)) 1 Abort
   \<and> getCurrentUploads (api_step (sample_env (Some Standard)) (Event 1 Abort)
        (fst (started (sample_env (Some Standard))
           [CallUploadContent sample_file shared_opts] sample_file shared_opts))) = []"
  using registry_restored [of "sample_env (Some Standard)" "[CallUploadContent sample_file no_opts]"
      sample_file no_opts "[Event 1 done_ok]" Abort]
    registry_restored [of "sample_env (Some Standard)" "[CallUploadContent sample_file no_opts]"
      sample_file no_opts "[CallUploadContent sample_file no_opts, Event 0 done_ok]" done_ok]
    registry_restored [of "sample_env (Some Standard)"
      "[CallUploadContent sample_file shared_opts]" sample_file shared_opts "[]" Abort]
  by (simp add: started_def api_trigger_def api_samples samples removeElement_eq shared_opts_def
      done_ok_def Let_def)

end
